theory Spec2Isabelle
  imports Main "HOL-Library.Multiset"
begin

section \<open>Strings and characters\<close>

text \<open>
  A Python \<open>str\<close> is a sequence of code points. The model uses \<open>string\<close>, whose
  characters are the code points 0 to 255; \<open>length\<close> counts code points. The three
  characters the program treats specially are the backslash, the forward slash and the
  newline.
\<close>

definition bslash :: char where
  "bslash = CHR 0x5C"

definition fslash :: char where
  "fslash = CHR 0x2F"

definition newline :: char where
  "newline = CHR 0x0A"

definition code_in :: "char \<Rightarrow> nat \<Rightarrow> nat \<Rightarrow> bool" where
  "code_in c lo hi = (lo \<le> of_char c \<and> (of_char c :: nat) \<le> hi)"

text \<open>The class \<open>[A-Za-z0-9_]\<close>.\<close>

definition ascii_word :: "char \<Rightarrow> bool" where
  "ascii_word c = (code_in c 0x30 0x39 \<or> code_in c 0x41 0x5A \<or> code_in c 0x5F 0x5F
     \<or> code_in c 0x61 0x7A)"

text \<open>
  Letters of the range 0x80 to 0xFF (feminine and masculine ordinal, micro sign, and the
  accented letters without the multiplication and division signs), and the numeric
  characters there (superscript digits and the three vulgar fractions).
\<close>

definition latin1_letter :: "char \<Rightarrow> bool" where
  "latin1_letter c = (code_in c 0xAA 0xAA \<or> code_in c 0xB5 0xB5 \<or> code_in c 0xBA 0xBA
     \<or> code_in c 0xC0 0xD6 \<or> code_in c 0xD8 0xF6 \<or> code_in c 0xF8 0xFF)"

definition latin1_numeric :: "char \<Rightarrow> bool" where
  "latin1_numeric c = (code_in c 0xB2 0xB3 \<or> code_in c 0xB9 0xB9 \<or> code_in c 0xBC 0xBE)"

text \<open>
  The class \<open>\w\<close> of a \<open>str\<close> pattern: every alphanumeric code point and the
  underscore, so more than \<open>[A-Za-z0-9_]\<close>.
\<close>

definition word_char :: "char \<Rightarrow> bool" where
  "word_char c = (ascii_word c \<or> latin1_letter c \<or> latin1_numeric c)"

text \<open>The class \<open>[^\\/]\<close>: anything but a backslash or a forward slash.\<close>

definition not_slash :: "char \<Rightarrow> bool" where
  "not_slash c = (c \<noteq> bslash \<and> c \<noteq> fslash)"

text \<open>
  \<open>str.isidentifier\<close>: a start character (a letter or the underscore) followed by
  continue characters (start characters, digits and the middle dot 0xB7).
\<close>

definition xid_start :: "char \<Rightarrow> bool" where
  "xid_start c = (code_in c 0x41 0x5A \<or> code_in c 0x5F 0x5F \<or> code_in c 0x61 0x7A
     \<or> latin1_letter c)"

definition xid_continue :: "char \<Rightarrow> bool" where
  "xid_continue c = (xid_start c \<or> code_in c 0x30 0x39 \<or> code_in c 0xB7 0xB7)"

fun isidentifier :: "string \<Rightarrow> bool" where
  "isidentifier [] = False"
| "isidentifier (c # cs) = (xid_start c \<and> list_all xid_continue cs)"

text \<open>\<open>sep.join(xs)\<close>, on strings and on pattern pieces alike.\<close>

fun join :: "'a list \<Rightarrow> 'a list list \<Rightarrow> 'a list" where
  "join sep [] = []"
| "join sep [x] = x"
| "join sep (x # y # ys) = x @ sep @ join sep (y # ys)"

section \<open>The regular expressions of the program\<close>

text \<open>
  The program builds two patterns, \<open>^\w+$\<close> and
  \<open>^\\?(?P<k1>[^\\/]+)\\(?P<k2>[^\\/]+)...$\<close>. A pattern is the list of its pieces:
  \<open>Bol\<close> is \<open>^\<close>, \<open>Eol\<close> is \<open>$\<close>, \<open>Opt c\<close> is \<open>c?\<close>, \<open>Lit c\<close> is the
  character \<open>c\<close>, \<open>Plus cls\<close> is \<open>cls+\<close> and \<open>Group name cls\<close> is
  \<open>(?P<name>cls+)\<close>.
\<close>

datatype tok =
    Bol
  | Eol
  | Opt char
  | Lit char
  | Plus "char \<Rightarrow> bool"
  | Group string "char \<Rightarrow> bool"

text \<open>
  \<open>rx_all pat pos s\<close> lists the ways \<open>pat\<close> matches a prefix of the rest \<open>s\<close> of the
  subject, \<open>pos\<close> characters into it, in the order a backtracking matcher finds them:
  \<open>?\<close> and \<open>+\<close> are greedy, so they try the longest repetition first. Each way is the
  list of its named groups with what they captured. \<open>$\<close> matches at the end of the
  subject and before a newline that ends it; \<open>^\<close> matches at position 0.
\<close>

fun rx_all :: "tok list \<Rightarrow> nat \<Rightarrow> string \<Rightarrow> (string \<times> string) list list" where
  "rx_all [] pos s = [[]]"
| "rx_all (Bol # ts) pos s = (if pos = 0 then rx_all ts pos s else [])"
| "rx_all (Eol # ts) pos s = (if s = [] \<or> s = [newline] then rx_all ts pos s else [])"
| "rx_all (Opt c # ts) pos s =
     (case s of
        [] \<Rightarrow> []
      | x # xs \<Rightarrow> if x = c then rx_all ts (Suc pos) xs else []) @ rx_all ts pos s"
| "rx_all (Lit c # ts) pos s =
     (case s of
        [] \<Rightarrow> []
      | x # xs \<Rightarrow> if x = c then rx_all ts (Suc pos) xs else [])"
| "rx_all (Plus cls # ts) pos s =
     concat (map (\<lambda>n. rx_all ts (pos + n) (drop n s))
       (rev [1..<Suc (length (takeWhile cls s))]))"
| "rx_all (Group name cls # ts) pos s =
     concat (map (\<lambda>n. map ((#) (name, take n s)) (rx_all ts (pos + n) (drop n s)))
       (rev [1..<Suc (length (takeWhile cls s))]))"

text \<open>
  \<open>pattern.match(s)\<close> followed by \<open>groupdict()\<close>: the first way the pattern matches
  at the start of \<open>s\<close>, or \<open>None\<close>. The dictionary is the association list of the
  groups in the pattern's order.
\<close>

definition re_match :: "tok list \<Rightarrow> string \<Rightarrow> (string \<times> string) list option" where
  "re_match pat s = (case rx_all pat 0 s of [] \<Rightarrow> None | m # _ \<Rightarrow> Some m)"

text \<open>
  \<open>re.compile\<close> raises \<open>re.error\<close> on a group whose name is empty, is not an
  identifier, or was used by an earlier group. (A key is spliced into the pattern's text;
  a key without \<open>>\<close> is read back as the group's name as it is, and these are the keys
  the model covers.)
\<close>

datatype re_error =
    MissingGroupName
  | BadGroupName string
  | GroupRedefinition string

fun check_groups :: "string list \<Rightarrow> tok list \<Rightarrow> re_error option" where
  "check_groups seen [] = None"
| "check_groups seen (Group name cls # ts) =
     (if name = [] then Some MissingGroupName
      else if \<not> isidentifier name then Some (BadGroupName name)
      else if name \<in> set seen then Some (GroupRedefinition name)
      else check_groups (name # seen) ts)"
| "check_groups seen (t # ts) = check_groups seen ts"

definition re_compile :: "tok list \<Rightarrow> re_error + tok list" where
  "re_compile pat = (case check_groups [] pat of Some e \<Rightarrow> Inl e | None \<Rightarrow> Inr pat)"

section \<open>The path transformer\<close>

definition captureGroups :: "string list \<Rightarrow> tok list list" where
  "captureGroups inputKeys = map (\<lambda>key. [Group key not_slash]) inputKeys"

definition joinedCaptureGroups :: "string list \<Rightarrow> tok list" where
  "joinedCaptureGroups inputKeys = join [Lit bslash] (captureGroups inputKeys)"

definition inputPathRegex :: "string list \<Rightarrow> tok list" where
  "inputPathRegex inputKeys = [Bol, Opt bslash] @ joinedCaptureGroups inputKeys @ [Eol]"

text \<open>
  \<open>transformFunction\<close> returns \<open>None\<close> when the pattern does not match, and also when
  the dictionary of the match is empty (an empty dictionary is false in the \<open>if\<close>).
  Output keys that are not in the dictionary are left out.
\<close>

definition transformFunction :: "tok list \<Rightarrow> string list \<Rightarrow> string \<Rightarrow> string option" where
  "transformFunction rx outputKeys relativePath =
     (case re_match rx relativePath of
        None \<Rightarrow> None
      | Some parts \<Rightarrow>
          if parts \<noteq> [] then Some (join [fslash] (List.map_filter (map_of parts) outputKeys))
          else None)"

definition getTransformPathFunction ::
  "string list \<Rightarrow> string list \<Rightarrow> re_error + (string \<Rightarrow> string option)" where
  "getTransformPathFunction inputKeys outputKeys =
     (case re_compile (inputPathRegex inputKeys) of
        Inl e \<Rightarrow> Inl e
      | Inr rx \<Rightarrow> Inr (transformFunction rx outputKeys))"

text \<open>Compiling the pattern for a schema pair and applying the function to one path.\<close>

definition transform_path ::
  "string list \<Rightarrow> string list \<Rightarrow> string \<Rightarrow> re_error + string option" where
  "transform_path inputKeys outputKeys relativePath =
     (case getTransformPathFunction inputKeys outputKeys of
        Inl e \<Rightarrow> Inl e
      | Inr transformPath \<Rightarrow> Inr (transformPath relativePath))"

section \<open>The schema validator\<close>

text \<open>
  Each \<open>assert\<close> that fails raises an \<open>AssertionError\<close> whose message names the key;
  the error value keeps the kind of message and the key.
\<close>

datatype config_error =
    InvalidCharacterInputKeys string
  | DuplicateKey string
  | InvalidCharacterOutputKeys string
  | MissingKey string

fun error_key :: "config_error \<Rightarrow> string" where
  "error_key (InvalidCharacterInputKeys key) = key"
| "error_key (DuplicateKey key) = key"
| "error_key (InvalidCharacterOutputKeys key) = key"
| "error_key (MissingKey key) = key"

text \<open>The pattern \<open>^\w+$\<close>.\<close>

definition keyRegex :: "tok list" where
  "keyRegex = [Bol, Plus word_char, Eol]"

text \<open>
  The loop of \<open>validateInputKeysConfig\<close> over the keys still to visit; \<open>inputKeys\<close> is
  the whole list, which \<open>count\<close> reads.
\<close>

fun validateInputKeys_loop :: "string list \<Rightarrow> string list \<Rightarrow> config_error + unit" where
  "validateInputKeys_loop inputKeys [] = Inr ()"
| "validateInputKeys_loop inputKeys (key # rest) =
     (if re_match keyRegex key = None then Inl (InvalidCharacterInputKeys key)
      else if count_list inputKeys key \<noteq> 1 then Inl (DuplicateKey key)
      else validateInputKeys_loop inputKeys rest)"

definition validateInputKeysConfig :: "string list \<Rightarrow> config_error + unit" where
  "validateInputKeysConfig inputKeys = validateInputKeys_loop inputKeys inputKeys"

fun validateOutputKeysConfig :: "string list \<Rightarrow> string list \<Rightarrow> config_error + unit" where
  "validateOutputKeysConfig inputKeys [] = Inr ()"
| "validateOutputKeysConfig inputKeys (key # rest) =
     (if re_match keyRegex key = None then Inl (InvalidCharacterOutputKeys key)
      else if key \<notin> set inputKeys then Inl (MissingKey key)
      else validateOutputKeysConfig inputKeys rest)"

text \<open>
  The start of the program: the input keys are validated, then the output keys; the
  first \<open>AssertionError\<close> ends the program.
\<close>

definition validateConfig :: "string list \<Rightarrow> string list \<Rightarrow> config_error + unit" where
  "validateConfig inputKeys outputKeys =
     (case validateInputKeysConfig inputKeys of
        Inl e \<Rightarrow> Inl e
      | Inr u \<Rightarrow> validateOutputKeysConfig inputKeys outputKeys)"

text \<open>What the two loops check of one key.\<close>

definition input_key_ok :: "string list \<Rightarrow> string \<Rightarrow> bool" where
  "input_key_ok inputKeys key = (re_match keyRegex key \<noteq> None \<and> count_list inputKeys key = 1)"

definition output_key_ok :: "string list \<Rightarrow> string \<Rightarrow> bool" where
  "output_key_ok inputKeys key = (re_match keyRegex key \<noteq> None \<and> key \<in> set inputKeys)"

section \<open>The copy orchestrator\<close>

text \<open>
  The file system and \<open>pathlib\<close> are outside the program. A file system is a value of
  a type \<open>'fs\<close>, and the calls the program makes are the fields of a record. Paths are
  strings; \<open>relative_to\<close> gives the string of the relative path, the argument of the
  transform function. Every call that touches the file system can raise an \<open>OSError\<close>
  (\<open>IOError\<close> is the same class, \<open>SameFileError\<close> a subclass): \<open>exists\<close> raises it
  for a failure other than a missing path, such as a directory that may not be searched;
  \<open>mkdir\<close> and \<open>copy2\<close> return the error, if any, with the file system they leave
  behind.
\<close>

datatype io_error = IOError string | SameFileError string

record 'fs os_calls =
  path_exists :: "'fs \<Rightarrow> string \<Rightarrow> io_error + bool"
  path_parent :: "string \<Rightarrow> string"
  joinpath :: "string \<Rightarrow> string \<Rightarrow> string"
  relative_to :: "string \<Rightarrow> string \<Rightarrow> string"
  mkdir_parents :: "'fs \<Rightarrow> string \<Rightarrow> io_error option \<times> 'fs"
  copy2 :: "'fs \<Rightarrow> string \<Rightarrow> string \<Rightarrow> io_error option \<times> 'fs"
  list_files :: "'fs \<Rightarrow> string \<Rightarrow> string list"

text \<open>
  \<open>copyFile\<close>: the error it raises, if any, and the file system it leaves behind. Its
  own call of \<open>exists\<close>, on the parent of the destination, can raise as well.
\<close>

definition copyFile ::
  "'fs os_calls \<Rightarrow> 'fs \<Rightarrow> string \<Rightarrow> string \<Rightarrow> io_error option \<times> 'fs" where
  "copyFile os fs source destination =
     (case path_exists os fs (path_parent os destination) of
        Inl e \<Rightarrow> (Some e, fs)
      | Inr parentExists \<Rightarrow>
          if \<not> parentExists then
            (case mkdir_parents os fs (path_parent os destination) of
               (Some e, fs') \<Rightarrow> (Some e, fs')
             | (None, fs') \<Rightarrow> copy2 os fs' source destination)
          else copy2 os fs source destination)"

definition getAllFilesInDirectory :: "'fs os_calls \<Rightarrow> 'fs \<Rightarrow> string \<Rightarrow> string list" where
  "getAllFilesInDirectory os fs root = list_files os fs root"

datatype log_record =
    LogCopy string string
  | LogSkip string
  | LogIgnore string
  | LogError string io_error

record 'fs run_state =
  fileCopiedCount :: nat
  fileIgnoredCount :: nat
  fileSkippedCount :: nat
  copyErrorCount :: nat
  printed :: string
  logged :: "log_record list"
  fsys :: "'fs"

definition init_state :: "'fs \<Rightarrow> 'fs run_state" where
  "init_state fs =
     \<lparr>fileCopiedCount = 0, fileIgnoredCount = 0, fileSkippedCount = 0, copyErrorCount = 0,
      printed = [], logged = [], fsys = fs\<rparr>"

text \<open>The \<open>else\<close> branch of the loop body: the file does not match.\<close>

definition ignore_file :: "'fs run_state \<Rightarrow> string \<Rightarrow> 'fs run_state" where
  "ignore_file st file =
     st\<lparr>logged := logged st @ [LogIgnore file],
        printed := printed st @ ''!'',
        fileIgnoredCount := fileIgnoredCount st + 1\<rparr>"

text \<open>
  The body of the loop of \<open>main\<close>. \<open>if destinationRelativePath\<close> is false for
  \<open>None\<close> and for the empty string. The test \<open>destinationAbsolutePath.exists()\<close>
  stands before the \<open>try\<close>: an error it raises is not caught and leaves the loop
  (\<open>Inl\<close>). An error of \<open>copyFile\<close> is caught and tallied.
\<close>

definition process_file ::
  "'fs os_calls \<Rightarrow> (string \<Rightarrow> string option) \<Rightarrow> string \<Rightarrow> string \<Rightarrow>
   'fs run_state \<Rightarrow> string \<Rightarrow> io_error + 'fs run_state" where
  "process_file os transformPath sourceDir dstDir st file =
     (let sourceRelativePath = relative_to os file sourceDir in
      case transformPath sourceRelativePath of
        None \<Rightarrow> Inr (ignore_file st file)
      | Some destinationRelativePath \<Rightarrow>
          if destinationRelativePath = [] then Inr (ignore_file st file)
          else
            let sourceAbsolutePath = joinpath os sourceDir sourceRelativePath;
                destinationAbsolutePath = joinpath os dstDir destinationRelativePath
            in
              case path_exists os (fsys st) destinationAbsolutePath of
                Inl e \<Rightarrow> Inl e
              | Inr destinationExists \<Rightarrow>
                  if \<not> destinationExists then
                    (case copyFile os (fsys st) sourceAbsolutePath destinationAbsolutePath of
                       (Some e, fs') \<Rightarrow>
                         Inr (st\<lparr>logged := logged st @
                              [LogCopy sourceAbsolutePath destinationAbsolutePath,
                               LogError sourceAbsolutePath e],
                            printed := printed st @ ''E'',
                            copyErrorCount := copyErrorCount st + 1,
                            fsys := fs'\<rparr>)
                     | (None, fs') \<Rightarrow>
                         Inr (st\<lparr>logged := logged st @
                              [LogCopy sourceAbsolutePath destinationAbsolutePath],
                            printed := printed st @ ''+'',
                            fileCopiedCount := fileCopiedCount st + 1,
                            fsys := fs'\<rparr>))
                  else
                    Inr (st\<lparr>logged := logged st @ [LogSkip destinationAbsolutePath],
                       printed := printed st @ ''-'',
                       fileSkippedCount := fileSkippedCount st + 1\<rparr>))"

text \<open>The loop: an uncaught error ends it, and the files after it are not visited.\<close>

fun main_loop ::
  "'fs os_calls \<Rightarrow> (string \<Rightarrow> string option) \<Rightarrow> string \<Rightarrow> string \<Rightarrow>
   'fs run_state \<Rightarrow> string list \<Rightarrow> io_error + 'fs run_state" where
  "main_loop os transformPath sourceDir dstDir st [] = Inr st"
| "main_loop os transformPath sourceDir dstDir st (file # files) =
     (case process_file os transformPath sourceDir dstDir st file of
        Inl e \<Rightarrow> Inl e
      | Inr st' \<Rightarrow> main_loop os transformPath sourceDir dstDir st' files)"

text \<open>
  \<open>main\<close>, from the two roots: the final state and \<open>len(files)\<close>, the numbers of the
  summary. A pattern that does not compile ends the program before any file is read; an
  error raised by \<open>exists\<close> in the loop ends it before the summary.
\<close>

datatype uncaught = PatternError re_error | ExistsError io_error

definition main ::
  "'fs os_calls \<Rightarrow> string list \<Rightarrow> string list \<Rightarrow> string \<Rightarrow> string \<Rightarrow> 'fs \<Rightarrow>
   uncaught + ('fs run_state \<times> nat)" where
  "main os inputKeys outputKeys sourceDir dstDir fs =
     (case getTransformPathFunction inputKeys outputKeys of
        Inl e \<Rightarrow> Inl (PatternError e)
      | Inr transformPath \<Rightarrow>
          let files = getAllFilesInDirectory os fs sourceDir
          in case main_loop os transformPath sourceDir dstDir (init_state fs) files of
               Inl e \<Rightarrow> Inl (ExistsError e)
             | Inr st \<Rightarrow> Inr (st, length files))"

text \<open>The four tallies of a state.\<close>

definition tallies :: "'fs run_state \<Rightarrow> nat \<times> nat \<times> nat \<times> nat" where
  "tallies st = (fileCopiedCount st, fileIgnoredCount st, fileSkippedCount st, copyErrorCount st)"

definition tally_sum :: "'fs run_state \<Rightarrow> nat" where
  "tally_sum st =
     fileCopiedCount st + fileIgnoredCount st + fileSkippedCount st + copyErrorCount st"

text \<open>
  A small file system to run the orchestrator on: the list of the paths that exist, each
  with its content. The permissions do not change during a run: \<open>unwritable\<close> lists the
  directories that cannot be created, \<open>unsearchable\<close> the paths whose \<open>exists\<close> raises.
  Copying a file that does not exist fails, and so does copying a file onto itself.
\<close>

definition demo_os :: "string list \<Rightarrow> string list \<Rightarrow> (string \<times> string) list os_calls" where
  "demo_os unwritable unsearchable =
     \<lparr>path_exists = (\<lambda>fs p.
        if p \<in> set unsearchable then Inl (IOError p) else Inr (map_of fs p \<noteq> None)),
      path_parent = (\<lambda>p. rev (drop 1 (dropWhile (\<lambda>c. c \<noteq> fslash) (rev p)))),
      joinpath = (\<lambda>a b. a @ [fslash] @ b),
      relative_to = (\<lambda>file root. drop (Suc (length root)) file),
      mkdir_parents = (\<lambda>fs p.
        if p \<in> set unwritable then (Some (IOError p), fs) else (None, (p, []) # fs)),
      copy2 = (\<lambda>fs src dst.
        case map_of fs src of
          None \<Rightarrow> (Some (IOError src), fs)
        | Some content \<Rightarrow>
            if src = dst then (Some (SameFileError src), fs)
            else (None, (dst, content) # fs)),
      list_files = (\<lambda>fs root. filter (\<lambda>p. take (Suc (length root)) p = root @ [fslash])
        (map fst fs))\<rparr>"

section \<open>Notions used to state the properties\<close>

text \<open>
  A path component as the pattern accepts it: one or more characters, none of them a
  backslash or a forward slash.
\<close>

definition component :: "string \<Rightarrow> bool" where
  "component c = (c \<noteq> [] \<and> list_all not_slash c)"

text \<open>The pattern after its optional leading backslash: the groups, then \<open>$\<close>.\<close>

definition body :: "string list \<Rightarrow> tok list" where
  "body ks = joinedCaptureGroups ks @ [Eol]"

text \<open>
  The names that \<open>^\w+$\<close> matches: the non-empty strings of word characters, and
  those strings followed by one newline.
\<close>

definition word_name :: "string \<Rightarrow> bool" where
  "word_name key = (key \<noteq> [] \<and> list_all word_char key)"

definition word_name_newline :: "string \<Rightarrow> bool" where
  "word_name_newline key = (key \<noteq> [] \<and> last key = newline \<and> word_name (butlast key))"

text \<open>
  A rebuilt path written with the separator of source paths: each forward slash becomes
  a backslash.
\<close>

definition to_source_separators :: "string \<Rightarrow> string" where
  "to_source_separators q = map (\<lambda>c. if c = fslash then bslash else c) q"

section \<open>Properties of the matcher\<close>

text \<open>
  The pattern of a non-empty schema matches a string exactly when the string is, after
  one optional leading backslash, as many components as the schema has names, joined by
  backslashes; the first match binds the names to the components in order. A greedy
  group never has to give characters back: the character after its longest run is a
  backslash, a forward slash or the end of the string.
\<close>

lemmas char_defs = bslash_def fslash_def newline_def not_slash_def code_in_def
  latin1_letter_def latin1_numeric_def ascii_word_def word_char_def xid_start_def xid_continue_def

lemmas transform_defs = transform_path_def getTransformPathFunction_def re_compile_def
  inputPathRegex_def joinedCaptureGroups_def captureGroups_def transformFunction_def
  re_match_def List.map_filter_def

lemma body_single: "body [k] = [Group k not_slash, Eol]"
  by (simp add: body_def joinedCaptureGroups_def captureGroups_def)

lemma body_more: "body (k # k' # ks) = Group k not_slash # Lit bslash # body (k' # ks)"
  by (simp add: body_def joinedCaptureGroups_def captureGroups_def)

lemma concat_rev_upt_Suc:
  "concat (map f (rev [Suc 0..<Suc (Suc m)])) = f (Suc m) @ concat (map f (rev [Suc 0..<Suc m]))"
  by simp

lemma concat_rev_upt_Nil:
  "(concat (map f (rev [1..<Suc m])) = []) = (\<forall>n. 1 \<le> n \<and> n \<le> m \<longrightarrow> f n = [])"
  by (auto simp: less_Suc_eq_le)

lemma takeWhile_component:
  "list_all not_slash c \<Longrightarrow> takeWhile not_slash (c @ bslash # r) = c"
  by (induction c) (auto simp: not_slash_def)

lemma takeWhile_all: "list_all P c \<Longrightarrow> takeWhile P c = c"
  by (induction c) auto


lemma rx_all_Group_unfold:
  assumes "takeWhile cls s \<noteq> []"
  shows "rx_all (Group k cls # ts) pos s =
     map ((#) (k, takeWhile cls s))
       (rx_all ts (pos + length (takeWhile cls s)) (dropWhile cls s)) @
     concat (map (\<lambda>n. map ((#) (k, take n s)) (rx_all ts (pos + n) (drop n s)))
       (rev [Suc 0..<length (takeWhile cls s)]))"
proof -
  obtain j where j: "length (takeWhile cls s) = Suc j"
    using assms by (cases "takeWhile cls s") auto
  have t: "take (Suc j) s = takeWhile cls s"
    using j takeWhile_eq_take [of cls s] by simp
  have d: "drop (Suc j) s = dropWhile cls s"
    using j dropWhile_eq_drop [of cls s] by simp
  show ?thesis
    by (simp add: j concat_rev_upt_Suc t d del: upt_Suc)
qed

lemma rx_all_Group_nonempty:
  assumes "rx_all (Group k cls # ts) pos s \<noteq> []"
  shows "\<exists>n. 1 \<le> n \<and> n \<le> length (takeWhile cls s) \<and> rx_all ts (pos + n) (drop n s) \<noteq> []"
  using assms by (fastforce simp: less_Suc_eq_le simp del: upt_Suc)

lemma rx_all_Group_empty:
  "takeWhile cls s = [] \<Longrightarrow> rx_all (Group k cls # ts) pos s = []"
  by simp

lemma join_Cons: "comps \<noteq> [] \<Longrightarrow> join sep (c # comps) = c @ sep @ join sep comps"
  by (cases comps) auto

lemma rx_body_fwd:
  assumes "ks \<noteq> []" "length comps = length ks" "list_all component comps"
  shows "\<exists>rest. rx_all (body ks) pos (join [bslash] comps) = zip ks comps # rest"
  using assms
proof (induction ks arbitrary: comps pos)
  case Nil
  then show ?case by simp
next
  case (Cons k ks)
  obtain c cs where comps: "comps = c # cs" and len: "length cs = length ks"
    using Cons.prems(2) by (cases comps) auto
  have c: "c \<noteq> []" "list_all not_slash c"
    using Cons.prems(3) comps by (simp_all add: component_def)
  have cs: "list_all component cs"
    using Cons.prems(3) comps by simp
  show ?case
  proof (cases ks)
    case Nil
    then have cs_Nil: "cs = []" using len by simp
    have tw: "takeWhile not_slash c = c" and dw: "dropWhile not_slash c = []"
      using c(2) by (simp_all add: takeWhile_all list_all_iff)
    have "takeWhile not_slash c \<noteq> []" unfolding tw by (rule c(1))
    from rx_all_Group_unfold [OF this, of k "[Eol]" pos]
    have "\<exists>rest. rx_all [Group k not_slash, Eol] pos c = [(k, c)] # rest"
      unfolding tw dw by simp
    then show ?thesis
      using Nil comps cs_Nil by (simp add: body_single del: rx_all.simps)
  next
    case (Cons k' ks')
    then have "cs \<noteq> []" using len by auto
    then have j: "join [bslash] comps = c @ bslash # join [bslash] cs"
      using comps by (simp add: join_Cons)
    have tw: "takeWhile not_slash (c @ bslash # join [bslash] cs) = c"
      using c(2) by (rule takeWhile_component)
    have dw: "dropWhile not_slash (c @ bslash # join [bslash] cs) = bslash # join [bslash] cs"
      using c(2) by (induction c) (auto simp: not_slash_def)
    obtain rest where
      ih: "rx_all (body ks) (Suc (pos + length c)) (join [bslash] cs) = zip ks cs # rest"
      using Cons.IH [of cs "Suc (pos + length c)"] Cons len cs by auto
    have b: "body (k # ks) = Group k not_slash # Lit bslash # body ks"
      using Cons by (simp add: body_more)
    have z: "zip (k # ks) comps = (k, c) # zip ks cs"
      using comps by simp
    have "takeWhile not_slash (c @ bslash # join [bslash] cs) \<noteq> []"
      unfolding tw by (rule c(1))
    from rx_all_Group_unfold [OF this, of k "Lit bslash # body ks" pos]
    have "\<exists>rest. rx_all (Group k not_slash # Lit bslash # body ks) pos
        (c @ bslash # join [bslash] cs) = ((k, c) # zip ks cs) # rest"
      unfolding tw dw by (simp add: ih)
    then show ?thesis
      unfolding b z j .
  qed
qed

lemma rx_Eol_nonempty: "(rx_all [Eol] pos r \<noteq> []) = (r = [] \<or> r = [newline])"
  by simp

lemma rx_body_bwd:
  assumes "ks \<noteq> []" "rx_all (body ks) pos s \<noteq> []"
  shows "\<exists>comps. length comps = length ks \<and> list_all component comps \<and> s = join [bslash] comps"
  using assms
proof (induction ks arbitrary: s pos)
  case Nil
  then show ?case by simp
next
  case (Cons k ks)
  let ?m = "length (takeWhile not_slash s)"
  show ?case
  proof (cases ks)
    case Nil
    then obtain n where n: "1 \<le> n" "n \<le> ?m" "rx_all [Eol] (pos + n) (drop n s) \<noteq> []"
      using Cons.prems(2) rx_all_Group_nonempty [of k not_slash "[Eol]" pos s]
      by (auto simp: body_single simp del: rx_all.simps)
    have n3: "length s \<le> n \<or> drop n s = [newline]"
      using n(3) by (simp split: if_splits)
    have m_le: "?m \<le> length s" by (rule length_takeWhile_le)
    have "?m = length s"
    proof (rule ccontr)
      assume neq: "?m \<noteq> length s"
      then have lt: "?m < length s" using m_le by simp
      then have stop: "\<not> not_slash (s ! ?m)" by (rule nth_length_takeWhile)
      from n3 lt n(2) have dn: "drop n s = [newline]" by auto
      have "length (drop n s) = 1" by (simp add: dn)
      then have "length s = Suc n" by simp
      then have "?m = n" using lt n(2) by simp
      then have "s ! ?m = newline" using dn lt by (metis hd_drop_conv_nth list.sel(1))
      then show False using stop by (simp add: char_defs)
    qed
    then have "takeWhile not_slash s = s"
      by (metis takeWhile_eq_take take_all order_refl)
    then have "list_all not_slash s"
      by (metis list_all_iff set_takeWhileD)
    moreover have "s \<noteq> []" using n(1) n(2) by auto
    ultimately have "component s" by (simp add: component_def)
    then show ?thesis using Nil
      by (intro exI [of _ "[s]"]) simp
  next
    case (Cons k' ks')
    then obtain n where n: "1 \<le> n" "n \<le> ?m"
      "rx_all (Lit bslash # body ks) (pos + n) (drop n s) \<noteq> []"
      using Cons.prems(2) rx_all_Group_nonempty [of k not_slash "Lit bslash # body ks" pos s]
      by (auto simp: body_more simp del: rx_all.simps)
    then obtain r where r: "drop n s = bslash # r" "rx_all (body ks) (Suc (pos + n)) r \<noteq> []"
      by (auto split: list.splits if_splits)
    have nlt: "n < length s" using r(1) by (metis drop_eq_Nil list.distinct(1) not_le)
    have sn: "s ! n = bslash" using r(1) nlt by (metis hd_drop_conv_nth list.sel(1))
    have "n = ?m"
    proof (rule ccontr)
      assume "n \<noteq> ?m"
      then have "n < ?m" using n(2) by simp
      then have "takeWhile not_slash s ! n = s ! n"
        and "takeWhile not_slash s ! n \<in> set (takeWhile not_slash s)"
        by (rule takeWhile_nth, rule nth_mem)
      then have "not_slash (s ! n)" by (metis set_takeWhileD)
      then show False using sn by (simp add: not_slash_def)
    qed
    then have c: "take n s = takeWhile not_slash s"
      by (metis takeWhile_eq_take)
    have cne: "take n s \<noteq> []" using n(1) nlt by auto
    have call: "list_all not_slash (take n s)"
      unfolding c by (metis list_all_iff set_takeWhileD)
    obtain comps where comps: "length comps = length ks" "list_all component comps"
      "r = join [bslash] comps"
      using Cons.IH [OF _ r(2)] Cons by auto
    have "comps \<noteq> []" using comps(1) Cons by auto
    then have "join [bslash] (take n s # comps) = take n s @ bslash # r"
      using comps(3) by (simp add: join_Cons)
    also have "\<dots> = s" using r(1) by (metis append_take_drop_id)
    finally have "s = join [bslash] (take n s # comps)" by simp
    moreover have "component (take n s)"
      using cne call by (simp add: component_def)
    ultimately show ?thesis using comps(1,2)
      by (intro exI [of _ "take n s # comps"]) simp
  qed
qed


lemma rx_body_leading_bslash:
  assumes "ks \<noteq> []"
  shows "rx_all (body ks) pos (bslash # xs) = []"
proof -
  have tw: "takeWhile not_slash (bslash # xs) = []"
    by (simp add: not_slash_def)
  show ?thesis
  proof (cases ks)
    case Nil
    then show ?thesis using assms by simp
  next
    case (Cons k ks')
    then show ?thesis
      by (cases ks') (simp_all add: body_single body_more rx_all_Group_empty [OF tw] del: rx_all.simps)
  qed
qed

lemma rx_inputPathRegex:
  "rx_all (inputPathRegex ks) 0 p =
     (case p of [] \<Rightarrow> [] | x # xs \<Rightarrow> if x = bslash then rx_all (body ks) (Suc 0) xs else []) @
     rx_all (body ks) 0 p"
  by (cases p) (simp_all add: inputPathRegex_def body_def)

lemma re_match_inputPathRegex:
  assumes "ks \<noteq> []"
  shows "(re_match (inputPathRegex ks) p = Some parts) =
     (\<exists>comps. length comps = length ks \<and> list_all component comps \<and>
        (p = join [bslash] comps \<or> p = bslash # join [bslash] comps) \<and> parts = zip ks comps)"
proof
  assume "re_match (inputPathRegex ks) p = Some parts"
  then obtain rest where m: "rx_all (inputPathRegex ks) 0 p = parts # rest"
    by (auto simp: re_match_def split: list.splits)
  show "\<exists>comps. length comps = length ks \<and> list_all component comps \<and>
        (p = join [bslash] comps \<or> p = bslash # join [bslash] comps) \<and> parts = zip ks comps"
  proof (cases "\<exists>xs. p = bslash # xs")
    case True
    then obtain xs where p: "p = bslash # xs" by auto
    have b: "rx_all (body ks) (Suc 0) xs = parts # rest"
      using m unfolding rx_inputPathRegex p rx_body_leading_bslash [OF assms] by simp
    then obtain comps where comps: "length comps = length ks" "list_all component comps"
      "xs = join [bslash] comps"
      using rx_body_bwd [OF assms, of "Suc 0" xs] by auto
    obtain rest' where "rx_all (body ks) (Suc 0) xs = zip ks comps # rest'"
      using rx_body_fwd [OF assms comps(1,2), of "Suc 0"] comps(3) by auto
    then have "parts = zip ks comps" using b by simp
    then show ?thesis using comps p by auto
  next
    case False
    then have b: "rx_all (body ks) 0 p = parts # rest"
      using m unfolding rx_inputPathRegex by (auto split: list.splits if_splits)
    then obtain comps where comps: "length comps = length ks" "list_all component comps"
      "p = join [bslash] comps"
      using rx_body_bwd [OF assms, of 0 p] by auto
    obtain rest' where "rx_all (body ks) 0 p = zip ks comps # rest'"
      using rx_body_fwd [OF assms comps(1,2), of 0] comps(3) by auto
    then have "parts = zip ks comps" using b by simp
    then show ?thesis using comps by auto
  qed
next
  assume "\<exists>comps. length comps = length ks \<and> list_all component comps \<and>
        (p = join [bslash] comps \<or> p = bslash # join [bslash] comps) \<and> parts = zip ks comps"
  then obtain comps where comps: "length comps = length ks" "list_all component comps"
    "parts = zip ks comps" and p: "p = join [bslash] comps \<or> p = bslash # join [bslash] comps"
    by auto
  from p show "re_match (inputPathRegex ks) p = Some parts"
  proof
    assume p1: "p = join [bslash] comps"
    obtain rest where f: "rx_all (body ks) 0 p = parts # rest"
      using rx_body_fwd [OF assms comps(1,2), of 0] comps(3) p1 by auto
    have "\<not> (\<exists>xs. p = bslash # xs)"
      using f rx_body_leading_bslash [OF assms, of 0] by auto
    then have "rx_all (inputPathRegex ks) 0 p = parts # rest"
      unfolding rx_inputPathRegex using f by (auto split: list.splits)
    then show ?thesis by (simp add: re_match_def)
  next
    assume p2: "p = bslash # join [bslash] comps"
    obtain rest where f: "rx_all (body ks) (Suc 0) (join [bslash] comps) = parts # rest"
      using rx_body_fwd [OF assms comps(1,2), of "Suc 0"] comps(3) by auto
    have "rx_all (inputPathRegex ks) 0 p = parts # rest"
      unfolding rx_inputPathRegex p2 rx_body_leading_bslash [OF assms] using f by simp
    then show ?thesis by (simp add: re_match_def)
  qed
qed

lemma check_groups_Group:
  "(check_groups seen (Group k cls # ts) = None) =
     (isidentifier k \<and> k \<notin> set seen \<and> check_groups (k # seen) ts = None)"
  by (cases k) auto

lemma check_groups_body:
  "(check_groups seen (body ks) = None) =
     (list_all isidentifier ks \<and> distinct ks \<and> set ks \<inter> set seen = {})"
proof (induction ks arbitrary: seen rule: induct_list012)
  case 1
  then show ?case by (simp add: body_def joinedCaptureGroups_def captureGroups_def)
next
  case (2 k)
  then show ?case
    by (simp add: body_single check_groups_Group del: check_groups.simps(2))
next
  case (3 k k' ks)
  have "(check_groups seen (body (k # k' # ks)) = None) =
      (isidentifier k \<and> k \<notin> set seen \<and> check_groups (k # seen) (body (k' # ks)) = None)"
    by (simp add: body_more check_groups_Group del: check_groups.simps(2))
  also have "\<dots> = (isidentifier k \<and> k \<notin> set seen \<and>
      list_all isidentifier (k' # ks) \<and> distinct (k' # ks) \<and>
      set (k' # ks) \<inter> set (k # seen) = {})"
    unfolding 3(2) [of "k # seen"] ..
  also have "\<dots> = (list_all isidentifier (k # k' # ks) \<and> distinct (k # k' # ks) \<and>
      set (k # k' # ks) \<inter> set seen = {})"
    by auto
  finally show ?case .
qed

lemma check_groups_inputPathRegex:
  "(check_groups [] (inputPathRegex ks) = None) = (list_all isidentifier ks \<and> distinct ks)"
proof -
  have "check_groups [] (inputPathRegex ks) = check_groups [] (body ks)"
    by (simp add: inputPathRegex_def body_def)
  then show ?thesis
    by (simp add: check_groups_body)
qed

lemma getTransformPathFunction_Inr:
  "(getTransformPathFunction ks outs = Inr f) =
     (list_all isidentifier ks \<and> distinct ks \<and> f = transformFunction (inputPathRegex ks) outs)"
proof (cases "check_groups [] (inputPathRegex ks)")
  case None
  then show ?thesis
    using check_groups_inputPathRegex [of ks]
    by (simp add: getTransformPathFunction_def re_compile_def eq_commute)
next
  case (Some e)
  then show ?thesis
    using check_groups_inputPathRegex [of ks]
    by (auto simp: getTransformPathFunction_def re_compile_def)
qed

lemma re_match_inputPathRegex_Nil:
  "re_match (inputPathRegex []) p = Some parts \<Longrightarrow> parts = []"
  by (auto simp: re_match_def inputPathRegex_def joinedCaptureGroups_def captureGroups_def
      split: list.splits if_splits)

lemma transformFunction_Nil: "transformFunction (inputPathRegex []) outs p = None"
  using re_match_inputPathRegex_Nil [of p]
  by (auto simp: transformFunction_def split: option.splits)

lemma transformFunction_Some:
  assumes "ks \<noteq> []"
  shows "(transformFunction (inputPathRegex ks) outs p = Some r) =
     (\<exists>comps. length comps = length ks \<and> list_all component comps \<and>
        (p = join [bslash] comps \<or> p = bslash # join [bslash] comps) \<and>
        r = join [fslash] (List.map_filter (map_of (zip ks comps)) outs))"
proof
  assume "transformFunction (inputPathRegex ks) outs p = Some r"
  then obtain parts where parts: "re_match (inputPathRegex ks) p = Some parts"
    "r = join [fslash] (List.map_filter (map_of parts) outs)"
    by (auto simp: transformFunction_def split: option.splits if_splits)
  from parts(1) obtain comps where "length comps = length ks" "list_all component comps"
    "p = join [bslash] comps \<or> p = bslash # join [bslash] comps" "parts = zip ks comps"
    unfolding re_match_inputPathRegex [OF assms] by blast
  then show "\<exists>comps. length comps = length ks \<and> list_all component comps \<and>
        (p = join [bslash] comps \<or> p = bslash # join [bslash] comps) \<and>
        r = join [fslash] (List.map_filter (map_of (zip ks comps)) outs)"
    using parts(2) by blast
next
  assume "\<exists>comps. length comps = length ks \<and> list_all component comps \<and>
        (p = join [bslash] comps \<or> p = bslash # join [bslash] comps) \<and>
        r = join [fslash] (List.map_filter (map_of (zip ks comps)) outs)"
  then obtain comps where comps: "length comps = length ks" "list_all component comps"
    "p = join [bslash] comps \<or> p = bslash # join [bslash] comps"
    "r = join [fslash] (List.map_filter (map_of (zip ks comps)) outs)"
    by blast
  have m: "re_match (inputPathRegex ks) p = Some (zip ks comps)"
    unfolding re_match_inputPathRegex [OF assms] using comps(1,2,3) by blast
  have "zip ks comps \<noteq> []"
    using assms comps(1) by (cases ks; cases comps) auto
  then show "transformFunction (inputPathRegex ks) outs p = Some r"
    by (simp add: transformFunction_def m comps(4))
qed

lemma map_filter_all_Some:
  "(\<And>x. x \<in> set xs \<Longrightarrow> f x \<noteq> None) \<Longrightarrow> List.map_filter f xs = map (\<lambda>x. the (f x)) xs"
  by (induction xs) (auto simp: List.map_filter_def)

lemma map_of_zip_defined:
  "length comps = length ks \<Longrightarrow> k \<in> set ks \<Longrightarrow> map_of (zip ks comps) k \<noteq> None"
  by (metis map_of_zip_is_None)

section \<open>The path transformer: when it matches and what it returns\<close>

text \<open>
  Claim C1, as amended. For a schema pair whose pattern compiles, the transform function
  returns a rebuilt path exactly when the input schema is not empty and the path string
  is, after one optional leading backslash, exactly \<open>len(inputKeys)\<close> components joined
  by backslashes, each component non-empty and free of backslashes and forward slashes.
  In every other case, and for every path when the input schema is empty, it returns
  \<open>None\<close>.
\<close>

theorem transform_returns_path_iff:
  assumes "getTransformPathFunction inputKeys outputKeys = Inr transformPath"
  shows "(transformPath p \<noteq> None) =
     (inputKeys \<noteq> [] \<and>
      (\<exists>comps. length comps = length inputKeys \<and> list_all component comps \<and>
         (p = join [bslash] comps \<or> p = bslash # join [bslash] comps)))"
proof (cases "inputKeys = []")
  case True
  then show ?thesis
    using assms by (simp add: getTransformPathFunction_Inr transformFunction_Nil)
next
  case False
  have f: "transformPath = transformFunction (inputPathRegex inputKeys) outputKeys"
    using assms by (simp add: getTransformPathFunction_Inr)
  have "(transformPath p \<noteq> None) = (\<exists>r. transformPath p = Some r)"
    by auto
  also have "\<dots> = (\<exists>comps. length comps = length inputKeys \<and> list_all component comps \<and>
         (p = join [bslash] comps \<or> p = bslash # join [bslash] comps))"
    unfolding f transformFunction_Some [OF False] by blast
  finally show ?thesis using False by simp
qed

text \<open>The theorem at the schema \<open>[a, b]\<close> and the path \<open>x\y\<close>.\<close>

theorem transform_returns_path_iff_witness:
  "getTransformPathFunction [''a'', ''b''] [''b'', ''a''] =
     Inr (transformFunction (inputPathRegex [''a'', ''b'']) [''b'', ''a'']) \<and>
   transformFunction (inputPathRegex [''a'', ''b'']) [''b'', ''a'']
     [CHR ''x'', bslash, CHR ''y''] \<noteq> None"
proof -
  have c: "getTransformPathFunction [''a'', ''b''] [''b'', ''a''] =
     Inr (transformFunction (inputPathRegex [''a'', ''b'']) [''b'', ''a''])"
    by (simp add: getTransformPathFunction_def re_compile_def inputPathRegex_def
        joinedCaptureGroups_def captureGroups_def char_defs)
  have "\<exists>comps. length comps = length [''a'', ''b''] \<and> list_all component comps \<and>
      ([CHR ''x'', bslash, CHR ''y''] = join [bslash] comps \<or>
       [CHR ''x'', bslash, CHR ''y''] = bslash # join [bslash] comps)"
    by (rule exI [of _ "[''x'', ''y'']"]) (simp add: component_def char_defs)
  then show ?thesis
    using c transform_returns_path_iff [OF c, of "[CHR ''x'', bslash, CHR ''y'']"] by simp
qed

text \<open>
  Claim C1 as it is written fails for the empty input schema: the empty path consists of
  exactly zero components, and the transform function returns \<open>None\<close> for it (the
  dictionary of the match is empty, hence false).
\<close>

theorem transform_empty_schema_counterexample:
  "transform_path [] [] [] = Inr None \<and> length ([] :: string list) = length ([] :: string list)
   \<and> list_all component [] \<and> ([] :: string) = join [bslash] []"
  by (simp add: transform_defs char_defs)

text \<open>
  Claim C2. For a schema pair whose pattern compiles and whose output names all occur in
  the input schema, and for a path on which the transform function reports a match: the
  binding gives the \<open>i\<close>-th input name the \<open>i\<close>-th component of the path, and the
  rebuilt path is the values the binding gives to the output names, in the order of the
  output schema and once per occurrence, joined by forward slashes.
\<close>

theorem transform_rebuilds_in_output_order:
  assumes "getTransformPathFunction inputKeys outputKeys = Inr transformPath"
    and "set outputKeys \<subseteq> set inputKeys"
    and "transformPath p \<noteq> None"
  shows "\<exists>comps. length comps = length inputKeys \<and> list_all component comps \<and>
     (p = join [bslash] comps \<or> p = bslash # join [bslash] comps) \<and>
     re_match (inputPathRegex inputKeys) p = Some (zip inputKeys comps) \<and>
     transformPath p =
       Some (join [fslash] (map (\<lambda>key. the (map_of (zip inputKeys comps) key)) outputKeys))"
proof -
  have f: "transformPath = transformFunction (inputPathRegex inputKeys) outputKeys"
    using assms(1) by (simp add: getTransformPathFunction_Inr)
  have ne: "inputKeys \<noteq> []"
    using assms(3) unfolding f by (auto simp: transformFunction_Nil)
  obtain r where "transformPath p = Some r" using assms(3) by auto
  then obtain comps where comps: "length comps = length inputKeys" "list_all component comps"
    "p = join [bslash] comps \<or> p = bslash # join [bslash] comps"
    and r: "transformPath p =
      Some (join [fslash] (List.map_filter (map_of (zip inputKeys comps)) outputKeys))"
    unfolding f transformFunction_Some [OF ne] by blast
  have m: "re_match (inputPathRegex inputKeys) p = Some (zip inputKeys comps)"
    unfolding re_match_inputPathRegex [OF ne] using comps by blast
  have "List.map_filter (map_of (zip inputKeys comps)) outputKeys =
      map (\<lambda>key. the (map_of (zip inputKeys comps) key)) outputKeys"
    using assms(2) comps(1) by (intro map_filter_all_Some map_of_zip_defined) auto
  then show ?thesis using comps m r by auto
qed

text \<open>The theorem at the output schema \<open>[b, a, b]\<close>, where \<open>b\<close> occurs twice.\<close>

theorem transform_rebuilds_in_output_order_witness:
  "getTransformPathFunction [''a'', ''b''] [''b'', ''a'', ''b''] =
     Inr (transformFunction (inputPathRegex [''a'', ''b'']) [''b'', ''a'', ''b'']) \<and>
   set [''b'', ''a'', ''b''] \<subseteq> set [''a'', ''b''] \<and>
   transformFunction (inputPathRegex [''a'', ''b'']) [''b'', ''a'', ''b'']
     [CHR ''x'', bslash, CHR ''y''] = Some ''y/x/y'' \<and>
   (\<exists>comps. length comps = length [''a'', ''b''] \<and> list_all component comps \<and>
     ([CHR ''x'', bslash, CHR ''y''] = join [bslash] comps \<or>
      [CHR ''x'', bslash, CHR ''y''] = bslash # join [bslash] comps) \<and>
     re_match (inputPathRegex [''a'', ''b'']) [CHR ''x'', bslash, CHR ''y''] =
       Some (zip [''a'', ''b''] comps) \<and>
     transformFunction (inputPathRegex [''a'', ''b'']) [''b'', ''a'', ''b'']
       [CHR ''x'', bslash, CHR ''y''] =
       Some (join [fslash]
         (map (\<lambda>key. the (map_of (zip [''a'', ''b''] comps) key)) [''b'', ''a'', ''b''])))"
proof -
  have c: "getTransformPathFunction [''a'', ''b''] [''b'', ''a'', ''b''] =
     Inr (transformFunction (inputPathRegex [''a'', ''b'']) [''b'', ''a'', ''b''])"
    by (simp add: getTransformPathFunction_def re_compile_def inputPathRegex_def
        joinedCaptureGroups_def captureGroups_def char_defs)
  have s: "set [''b'', ''a'', ''b''] \<subseteq> set [''a'', ''b'']"
    by simp
  have v: "transformFunction (inputPathRegex [''a'', ''b'']) [''b'', ''a'', ''b'']
     [CHR ''x'', bslash, CHR ''y''] = Some ''y/x/y''"
    by (simp add: transform_defs char_defs)
  have m: "transformFunction (inputPathRegex [''a'', ''b'']) [''b'', ''a'', ''b'']
     [CHR ''x'', bslash, CHR ''y''] \<noteq> None"
    using v by simp
  show ?thesis
    using c s v transform_rebuilds_in_output_order [OF c s m] by blast
qed

text \<open>
  Claim C3, as amended. With input schema \<open>[a, b]\<close> and output schema \<open>[b, a]\<close>, the
  path string \<open>x\y\<close>, whose separator is the backslash, is transformed into \<open>y/x\<close>.
\<close>

theorem transform_scenario_A:
  "transform_path [''a'', ''b''] [''b'', ''a''] [CHR ''x'', bslash, CHR ''y''] = Inr (Some ''y/x'')"
  by (simp add: transform_defs char_defs)

text \<open>
  Claim C3 as it is written fails: the path string \<open>x/y\<close> does not match the pattern,
  whose separator is the backslash and whose components exclude the forward slash, and
  the transform function returns \<open>None\<close>.
\<close>

theorem transform_scenario_A_counterexample:
  "transform_path [''a'', ''b''] [''b'', ''a''] ''x/y'' = Inr None"
  by (simp add: transform_defs char_defs)

section \<open>Properties of the schema validator\<close>

text \<open>
  \<open>^\w+$\<close> matches the non-empty strings of word characters, and those strings
  followed by one newline. Each loop returns normally exactly when every key passes its
  two checks, and otherwise raises for the first key that fails one.
\<close>

lemma rx_all_Plus_nonempty:
  "(rx_all (Plus cls # ts) pos s \<noteq> []) =
     (\<exists>n. 1 \<le> n \<and> n \<le> length (takeWhile cls s) \<and> rx_all ts (pos + n) (drop n s) \<noteq> [])"
  by (fastforce simp: less_Suc_eq_le simp del: upt_Suc)

lemma re_match_nonempty: "(re_match pat s \<noteq> None) = (rx_all pat 0 s \<noteq> [])"
  by (simp add: re_match_def split: list.splits)

lemma re_match_keyRegex_raw:
  "(re_match keyRegex key \<noteq> None) =
     (\<exists>n. 1 \<le> n \<and> n \<le> length (takeWhile word_char key) \<and>
        (drop n key = [] \<or> drop n key = [newline]))"
proof -
  have "rx_all keyRegex 0 key = rx_all [Plus word_char, Eol] 0 key"
    by (simp add: keyRegex_def del: rx_all.simps(6))
  then have "(re_match keyRegex key \<noteq> None) = (rx_all [Plus word_char, Eol] 0 key \<noteq> [])"
    unfolding re_match_nonempty by (rule arg_cong)
  also have "\<dots> = (\<exists>n. 1 \<le> n \<and> n \<le> length (takeWhile word_char key) \<and>
        rx_all [Eol] (0 + n) (drop n key) \<noteq> [])"
    by (rule rx_all_Plus_nonempty)
  also have "\<dots> = (\<exists>n. 1 \<le> n \<and> n \<le> length (takeWhile word_char key) \<and>
        (drop n key = [] \<or> drop n key = [newline]))"
    unfolding rx_Eol_nonempty ..
  finally show ?thesis .
qed

lemma not_word_char_newline: "\<not> word_char newline"
  by (simp add: char_defs)

lemma ascii_word_word_char: "ascii_word c \<Longrightarrow> word_char c"
  by (simp add: word_char_def)

lemma re_match_keyRegex_iff:
  "(re_match keyRegex key \<noteq> None) =
     ((key \<noteq> [] \<and> list_all word_char key) \<or>
      (\<exists>w. w \<noteq> [] \<and> list_all word_char w \<and> key = w @ [newline]))"
proof
  assume "re_match keyRegex key \<noteq> None"
  then obtain n where n: "1 \<le> n" "n \<le> length (takeWhile word_char key)"
    "drop n key = [] \<or> drop n key = [newline]"
    unfolding re_match_keyRegex_raw by blast
  have pre: "list_all word_char (take n key)"
  proof -
    have "take n key = take n (takeWhile word_char key)"
      using n(2) by (metis takeWhile_eq_take take_take min.absorb1)
    then have "set (take n key) \<subseteq> set (takeWhile word_char key)"
      by (metis set_take_subset)
    then show ?thesis
      by (auto simp: list_all_iff dest: set_takeWhileD)
  qed
  have le: "length (takeWhile word_char key) \<le> length key"
    by (rule length_takeWhile_le)
  from n(3) show "(key \<noteq> [] \<and> list_all word_char key) \<or>
      (\<exists>w. w \<noteq> [] \<and> list_all word_char w \<and> key = w @ [newline])"
  proof
    assume "drop n key = []"
    then have "take n key = key" by simp
    moreover have "key \<noteq> []" using n(1,2) le by auto
    ultimately show ?thesis using pre by simp
  next
    assume d: "drop n key = [newline]"
    have "key = take n key @ [newline]"
      using d by (metis append_take_drop_id)
    moreover have "take n key \<noteq> []"
      using n(1,2) le by auto
    ultimately show ?thesis using pre by blast
  qed
next
  assume "(key \<noteq> [] \<and> list_all word_char key) \<or>
      (\<exists>w. w \<noteq> [] \<and> list_all word_char w \<and> key = w @ [newline])"
  then show "re_match keyRegex key \<noteq> None"
  proof
    assume k: "key \<noteq> [] \<and> list_all word_char key"
    then have "length key \<le> length (takeWhile word_char key)"
      by (simp add: takeWhile_all)
    moreover have "1 \<le> length key" using k by (simp add: Suc_le_eq)
    moreover have "drop (length key) key = []" by simp
    ultimately show ?thesis
      unfolding re_match_keyRegex_raw by blast
  next
    assume "\<exists>w. w \<noteq> [] \<and> list_all word_char w \<and> key = w @ [newline]"
    then obtain w where w: "w \<noteq> []" "list_all word_char w" "key = w @ [newline]"
      by blast
    have "takeWhile word_char key = w"
      unfolding w(3) using w(2) not_word_char_newline
      by (induction w) auto
    then have "length w \<le> length (takeWhile word_char key)"
      by simp
    moreover have "1 \<le> length w" using w(1) by (simp add: Suc_le_eq)
    moreover have "drop (length w) key = [newline]" using w(3) by simp
    ultimately show ?thesis
      unfolding re_match_keyRegex_raw by blast
  qed
qed

lemma validateInputKeys_loop_Inr:
  "(validateInputKeys_loop inputKeys ks = Inr u) = list_all (input_key_ok inputKeys) ks"
  by (induction ks) (auto simp: input_key_ok_def)

lemma validateOutputKeysConfig_Inr:
  "(validateOutputKeysConfig inputKeys ks = Inr u) = list_all (output_key_ok inputKeys) ks"
  by (induction ks) (auto simp: output_key_ok_def)

lemma validateInputKeys_loop_Inl:
  "validateInputKeys_loop inputKeys ks = Inl e \<Longrightarrow>
     \<exists>pre post. ks = pre @ error_key e # post \<and> list_all (input_key_ok inputKeys) pre \<and>
       \<not> input_key_ok inputKeys (error_key e) \<and>
       e = (if re_match keyRegex (error_key e) = None
            then InvalidCharacterInputKeys (error_key e) else DuplicateKey (error_key e))"
proof (induction ks)
  case Nil
  then show ?case by simp
next
  case (Cons key ks)
  show ?case
  proof (cases "input_key_ok inputKeys key")
    case True
    then have "validateInputKeys_loop inputKeys ks = Inl e"
      using Cons.prems by (auto simp: input_key_ok_def)
    then obtain pre post where "ks = pre @ error_key e # post"
      "list_all (input_key_ok inputKeys) pre" "\<not> input_key_ok inputKeys (error_key e)"
      "e = (if re_match keyRegex (error_key e) = None
            then InvalidCharacterInputKeys (error_key e) else DuplicateKey (error_key e))"
      using Cons.IH by blast
    then show ?thesis using True
      by (intro exI [of _ "key # pre"] exI [of _ post]) simp
  next
    case False
    then have "e = (if re_match keyRegex key = None
            then InvalidCharacterInputKeys key else DuplicateKey key)"
      using Cons.prems by (auto simp: input_key_ok_def split: if_splits)
    then have "error_key e = key" and "e = (if re_match keyRegex (error_key e) = None
            then InvalidCharacterInputKeys (error_key e) else DuplicateKey (error_key e))"
      by (auto split: if_splits)
    then show ?thesis using False
      by (intro exI [of _ "[]"] exI [of _ ks]) simp
  qed
qed

lemma validateOutputKeysConfig_Inl:
  "validateOutputKeysConfig inputKeys ks = Inl e \<Longrightarrow>
     \<exists>pre post. ks = pre @ error_key e # post \<and> list_all (output_key_ok inputKeys) pre \<and>
       \<not> output_key_ok inputKeys (error_key e) \<and>
       e = (if re_match keyRegex (error_key e) = None
            then InvalidCharacterOutputKeys (error_key e) else MissingKey (error_key e))"
proof (induction ks)
  case Nil
  then show ?case by simp
next
  case (Cons key ks)
  show ?case
  proof (cases "output_key_ok inputKeys key")
    case True
    then have "validateOutputKeysConfig inputKeys ks = Inl e"
      using Cons.prems by (auto simp: output_key_ok_def)
    then obtain pre post where "ks = pre @ error_key e # post"
      "list_all (output_key_ok inputKeys) pre" "\<not> output_key_ok inputKeys (error_key e)"
      "e = (if re_match keyRegex (error_key e) = None
            then InvalidCharacterOutputKeys (error_key e) else MissingKey (error_key e))"
      using Cons.IH by blast
    then show ?thesis using True
      by (intro exI [of _ "key # pre"] exI [of _ post]) simp
  next
    case False
    then have "e = (if re_match keyRegex key = None
            then InvalidCharacterOutputKeys key else MissingKey key)"
      using Cons.prems by (auto simp: output_key_ok_def split: if_splits)
    then have "error_key e = key" and "e = (if re_match keyRegex (error_key e) = None
            then InvalidCharacterOutputKeys (error_key e) else MissingKey (error_key e))"
      by (auto split: if_splits)
    then show ?thesis using False
      by (intro exI [of _ "[]"] exI [of _ ks]) simp
  qed
qed

lemma distinct_count_list: "distinct xs = (\<forall>x\<in>set xs. count_list xs x = 1)"
proof (induction xs)
  case Nil
  then show ?case by simp
next
  case (Cons a xs)
  have "count_list xs a = 0 \<longleftrightarrow> a \<notin> set xs" by (rule count_list_0_iff)
  then show ?case using Cons by (auto simp: count_list_0_iff)
qed

lemma validateConfig_Inr:
  "(validateConfig inputKeys outputKeys = Inr u) =
     (list_all (input_key_ok inputKeys) inputKeys \<and> list_all (output_key_ok inputKeys) outputKeys)"
proof (cases "validateInputKeysConfig inputKeys")
  case (Inl e)
  then show ?thesis
    using validateInputKeys_loop_Inr [of inputKeys inputKeys "()"]
    by (simp add: validateConfig_def validateInputKeysConfig_def)
next
  case (Inr v)
  then show ?thesis
    using validateInputKeys_loop_Inr [of inputKeys inputKeys "()"]
    by (simp add: validateConfig_def validateInputKeysConfig_def validateOutputKeysConfig_Inr)
qed

lemma ascii_key_match:
  assumes "key \<noteq> []" "list_all ascii_word key"
  shows "re_match keyRegex key \<noteq> None"
proof -
  have "list_all word_char key"
    using assms(2) by (auto simp: list_all_iff ascii_word_word_char)
  then show ?thesis
    unfolding re_match_keyRegex_iff using assms(1) by blast
qed

lemma validateConfig_Inl_iff:
  "(\<exists>e. validateConfig inputKeys outputKeys = Inl e) =
     (\<not> (list_all (input_key_ok inputKeys) inputKeys \<and>
         list_all (output_key_ok inputKeys) outputKeys))"
  using validateConfig_Inr [of inputKeys outputKeys "()"]
  by (cases "validateConfig inputKeys outputKeys") auto

lemmas validate_defs = validateConfig_def validateInputKeysConfig_def keyRegex_def
  re_match_def input_key_ok_def output_key_ok_def

section \<open>The schema validator: which names it rejects\<close>

lemma word_name_newline_iff:
  "word_name_newline key = (\<exists>w. w \<noteq> [] \<and> list_all word_char w \<and> key = w @ [newline])"
proof
  assume "word_name_newline key"
  then have "key \<noteq> []" "last key = newline" "butlast key \<noteq> []" "list_all word_char (butlast key)"
    by (simp_all add: word_name_newline_def word_name_def)
  moreover from this have "key = butlast key @ [newline]"
    by (metis append_butlast_last_id)
  ultimately show "\<exists>w. w \<noteq> [] \<and> list_all word_char w \<and> key = w @ [newline]"
    by blast
next
  assume "\<exists>w. w \<noteq> [] \<and> list_all word_char w \<and> key = w @ [newline]"
  then show "word_name_newline key"
    by (auto simp: word_name_newline_def word_name_def)
qed

lemma re_match_keyRegex_names:
  "(re_match keyRegex key \<noteq> None) = (word_name key \<or> word_name_newline key)"
  unfolding re_match_keyRegex_iff word_name_newline_iff word_name_def ..

lemmas name_defs = word_name_def word_name_newline_def

text \<open>
  Claim C4, as amended. Validation raises a configuration error whenever some name of
  the input or the output schema is neither a non-empty string of word characters of
  \<open>\w\<close> (alphanumeric code points and the underscore) nor such a string followed by
  one final newline: so whenever a name is empty, or contains a character that is not a
  word character, a single final newline after at least one word character excepted.
  And for every schema pair whose names are non-empty strings over \<open>[A-Za-z0-9_]\<close>,
  whose input names are distinct and whose output names occur in the input schema,
  validation succeeds and returns nothing.
\<close>

theorem validation_rejects_malformed_names:
  "((\<exists>key\<in>set inputKeys \<union> set outputKeys. \<not> word_name key \<and> \<not> word_name_newline key) \<longrightarrow>
      (\<exists>e. validateConfig inputKeys outputKeys = Inl e)) \<and>
   ((\<forall>key\<in>set inputKeys \<union> set outputKeys. key \<noteq> [] \<and> list_all ascii_word key) \<and>
      distinct inputKeys \<and> set outputKeys \<subseteq> set inputKeys \<longrightarrow>
      validateConfig inputKeys outputKeys = Inr ())"
proof (intro conjI impI)
  assume "\<exists>key\<in>set inputKeys \<union> set outputKeys. \<not> word_name key \<and> \<not> word_name_newline key"
  then obtain key where key: "key \<in> set inputKeys \<union> set outputKeys"
    "re_match keyRegex key = None"
    using re_match_keyRegex_names by blast
  then have "\<not> input_key_ok inputKeys key" "\<not> output_key_ok inputKeys key"
    by (simp_all add: input_key_ok_def output_key_ok_def)
  then have "\<not> (list_all (input_key_ok inputKeys) inputKeys \<and>
         list_all (output_key_ok inputKeys) outputKeys)"
    using key(1) by (auto simp: list_all_iff)
  then show "\<exists>e. validateConfig inputKeys outputKeys = Inl e"
    unfolding validateConfig_Inl_iff .
next
  assume a: "(\<forall>key\<in>set inputKeys \<union> set outputKeys. key \<noteq> [] \<and> list_all ascii_word key) \<and>
      distinct inputKeys \<and> set outputKeys \<subseteq> set inputKeys"
  then have m: "\<forall>key\<in>set inputKeys \<union> set outputKeys. re_match keyRegex key \<noteq> None"
    using ascii_key_match by blast
  have "\<forall>key\<in>set inputKeys. count_list inputKeys key = 1"
    using a distinct_count_list [of inputKeys] by blast
  then have "list_all (input_key_ok inputKeys) inputKeys"
    using m by (auto simp: list_all_iff input_key_ok_def)
  moreover have "list_all (output_key_ok inputKeys) outputKeys"
    using m a by (auto simp: list_all_iff output_key_ok_def)
  ultimately show "validateConfig inputKeys outputKeys = Inr ()"
    unfolding validateConfig_Inr by simp
qed

text \<open>
  The theorem at pairs with the names \<open>na-me\<close>, the empty name, \<open>a\<close> newline \<open>b\<close>,
  a lone newline and \<open>a\<close> followed by two newlines, which are all rejected, and at a
  valid pair.
\<close>

theorem validation_rejects_malformed_names_witness:
  "(\<exists>e. validateConfig [''year'', ''na-me''] [''year''] = Inl e) \<and>
   (\<exists>e. validateConfig [''year'', ''''] [''year''] = Inl e) \<and>
   (\<exists>e. validateConfig [[CHR ''a'', newline, CHR ''b'']] [] = Inl e) \<and>
   (\<exists>e. validateConfig [[newline]] [] = Inl e) \<and>
   (\<exists>e. validateConfig [''a''] [[CHR ''a'', newline, newline]] = Inl e) \<and>
   validateConfig [''year'', ''name''] [''name'', ''year'', ''name''] = Inr ()"
proof -
  have b1: "\<exists>key\<in>set [''year'', ''na-me''] \<union> set [''year''].
      \<not> word_name key \<and> \<not> word_name_newline key"
    by (simp add: name_defs char_defs)
  have b2: "\<exists>key\<in>set [''year'', ''''] \<union> set [''year''].
      \<not> word_name key \<and> \<not> word_name_newline key"
    by (simp add: name_defs char_defs)
  have b3: "\<exists>key\<in>set [[CHR ''a'', newline, CHR ''b'']] \<union> set [].
      \<not> word_name key \<and> \<not> word_name_newline key"
    by (simp add: name_defs char_defs)
  have b4: "\<exists>key\<in>set [[newline]] \<union> set [].
      \<not> word_name key \<and> \<not> word_name_newline key"
    by (simp add: name_defs char_defs)
  have b5: "\<exists>key\<in>set [''a''] \<union> set [[CHR ''a'', newline, newline]].
      \<not> word_name key \<and> \<not> word_name_newline key"
    by (simp add: name_defs char_defs)
  have g: "(\<forall>key\<in>set [''year'', ''name''] \<union> set [''name'', ''year'', ''name''].
        key \<noteq> [] \<and> list_all ascii_word key) \<and>
      distinct [''year'', ''name''] \<and>
      set [''name'', ''year'', ''name''] \<subseteq> set [''year'', ''name'']"
    by (simp add: char_defs)
  have r1: "\<exists>e. validateConfig [''year'', ''na-me''] [''year''] = Inl e"
    by (rule mp [OF conjunct1 [OF validation_rejects_malformed_names] b1])
  have r2: "\<exists>e. validateConfig [''year'', ''''] [''year''] = Inl e"
    by (rule mp [OF conjunct1 [OF validation_rejects_malformed_names] b2])
  have r3: "\<exists>e. validateConfig [[CHR ''a'', newline, CHR ''b'']] [] = Inl e"
    by (rule mp [OF conjunct1 [OF validation_rejects_malformed_names] b3])
  have r4: "\<exists>e. validateConfig [[newline]] [] = Inl e"
    by (rule mp [OF conjunct1 [OF validation_rejects_malformed_names] b4])
  have r5: "\<exists>e. validateConfig [''a''] [[CHR ''a'', newline, newline]] = Inl e"
    by (rule mp [OF conjunct1 [OF validation_rejects_malformed_names] b5])
  have r6: "validateConfig [''year'', ''name''] [''name'', ''year'', ''name''] = Inr ()"
    by (rule mp [OF conjunct2 [OF validation_rejects_malformed_names] g])
  show ?thesis
    by (intro conjI r1 r2 r3 r4 r5 r6)
qed

text \<open>
  Claim C4 as it is written fails: the name made of the letter 0xE9 (e with acute accent)
  is outside \<open>[A-Za-z0-9_]\<close> and validation accepts it, since \<open>\w\<close> matches every
  alphanumeric code point.
\<close>

theorem validation_accepts_non_ascii_counterexample:
  "validateConfig [[CHR 0xE9]] [[CHR 0xE9]] = Inr () \<and> \<not> ascii_word (CHR 0xE9)"
  by (simp add: validateConfig_def validateInputKeysConfig_def keyRegex_def re_match_def
      char_defs)

text \<open>
  Claim C5. Validation raises a configuration error whenever a name occurs more than
  once in the input schema or an output name is absent from the input schema. Whenever
  it raises, the error names the first key, in the order input schema then output
  schema, that fails a check of its loop, every key before it having passed, and the kind
  of the error says which check failed. On a pair whose names all match the name pattern,
  whose input names are distinct and whose output names occur in the input schema, it
  raises nothing.
\<close>

theorem validation_fail_fast:
  "(\<not> distinct inputKeys \<or> \<not> set outputKeys \<subseteq> set inputKeys \<longrightarrow>
      (\<exists>e. validateConfig inputKeys outputKeys = Inl e)) \<and>
   (\<forall>e. validateConfig inputKeys outputKeys = Inl e \<longrightarrow>
      (\<exists>pre post. inputKeys = pre @ error_key e # post \<and>
         list_all (input_key_ok inputKeys) pre \<and>
         \<not> input_key_ok inputKeys (error_key e) \<and>
         e = (if re_match keyRegex (error_key e) = None
              then InvalidCharacterInputKeys (error_key e) else DuplicateKey (error_key e))) \<or>
      (list_all (input_key_ok inputKeys) inputKeys \<and>
       (\<exists>pre post. outputKeys = pre @ error_key e # post \<and>
         list_all (output_key_ok inputKeys) pre \<and>
         \<not> output_key_ok inputKeys (error_key e) \<and>
         e = (if re_match keyRegex (error_key e) = None
              then InvalidCharacterOutputKeys (error_key e) else MissingKey (error_key e))))) \<and>
   ((\<forall>key\<in>set inputKeys \<union> set outputKeys. re_match keyRegex key \<noteq> None) \<and>
      distinct inputKeys \<and> set outputKeys \<subseteq> set inputKeys \<longrightarrow>
      validateConfig inputKeys outputKeys = Inr ())"
proof (intro conjI impI allI)
  assume a: "\<not> distinct inputKeys \<or> \<not> set outputKeys \<subseteq> set inputKeys"
  have "\<not> (list_all (input_key_ok inputKeys) inputKeys \<and>
         list_all (output_key_ok inputKeys) outputKeys)"
  proof
    assume ok: "list_all (input_key_ok inputKeys) inputKeys \<and>
         list_all (output_key_ok inputKeys) outputKeys"
    then have "\<forall>key\<in>set inputKeys. count_list inputKeys key = 1"
      by (auto simp: list_all_iff input_key_ok_def)
    then have "distinct inputKeys"
      unfolding distinct_count_list .
    moreover have "set outputKeys \<subseteq> set inputKeys"
      using ok by (auto simp: list_all_iff output_key_ok_def)
    ultimately show False using a by blast
  qed
  then show "\<exists>e. validateConfig inputKeys outputKeys = Inl e"
    unfolding validateConfig_Inl_iff .
next
  fix e
  assume e: "validateConfig inputKeys outputKeys = Inl e"
  show "(\<exists>pre post. inputKeys = pre @ error_key e # post \<and>
         list_all (input_key_ok inputKeys) pre \<and>
         \<not> input_key_ok inputKeys (error_key e) \<and>
         e = (if re_match keyRegex (error_key e) = None
              then InvalidCharacterInputKeys (error_key e) else DuplicateKey (error_key e))) \<or>
      (list_all (input_key_ok inputKeys) inputKeys \<and>
       (\<exists>pre post. outputKeys = pre @ error_key e # post \<and>
         list_all (output_key_ok inputKeys) pre \<and>
         \<not> output_key_ok inputKeys (error_key e) \<and>
         e = (if re_match keyRegex (error_key e) = None
              then InvalidCharacterOutputKeys (error_key e) else MissingKey (error_key e))))"
  proof (cases "validateInputKeysConfig inputKeys")
    case (Inl e')
    then have "e' = e" using e by (simp add: validateConfig_def)
    then have "validateInputKeys_loop inputKeys inputKeys = Inl e"
      using Inl by (simp add: validateInputKeysConfig_def)
    from validateInputKeys_loop_Inl [OF this] show ?thesis by (rule disjI1)
  next
    case (Inr u)
    then have i: "list_all (input_key_ok inputKeys) inputKeys"
      using validateInputKeys_loop_Inr [of inputKeys inputKeys u]
      by (simp add: validateInputKeysConfig_def)
    have "validateOutputKeysConfig inputKeys outputKeys = Inl e"
      using Inr e by (simp add: validateConfig_def)
    from validateOutputKeysConfig_Inl [OF this] i show ?thesis by blast
  qed
next
  assume a: "(\<forall>key\<in>set inputKeys \<union> set outputKeys. re_match keyRegex key \<noteq> None) \<and>
      distinct inputKeys \<and> set outputKeys \<subseteq> set inputKeys"
  have "\<forall>key\<in>set inputKeys. count_list inputKeys key = 1"
    using a distinct_count_list [of inputKeys] by blast
  then have "list_all (input_key_ok inputKeys) inputKeys"
    using a by (auto simp: list_all_iff input_key_ok_def)
  moreover have "list_all (output_key_ok inputKeys) outputKeys"
    using a by (auto simp: list_all_iff output_key_ok_def)
  ultimately show "validateConfig inputKeys outputKeys = Inr ()"
    unfolding validateConfig_Inr by simp
qed

text \<open>
  The theorem at a schema with a duplicate, at one with a missing name followed by a
  second missing name, and at a valid pair.
\<close>

theorem validation_fail_fast_witness:
  "validateConfig [''a'', ''b'', ''a''] [''b''] = Inl (DuplicateKey ''a'') \<and>
   validateConfig [''a'', ''b''] [''b'', ''c'', ''d''] = Inl (MissingKey ''c'') \<and>
   validateConfig [''a'', ''b''] [''b'', ''a'', ''b''] = Inr ()"
proof -
  have d: "\<not> distinct [''a'', ''b'', ''a''] \<or> \<not> set [''b''] \<subseteq> set [''a'', ''b'', ''a'']"
    by simp
  have m: "\<not> distinct [''a'', ''b''] \<or> \<not> set [''b'', ''c'', ''d''] \<subseteq> set [''a'', ''b'']"
    by simp
  have g: "(\<forall>key\<in>set [''a'', ''b''] \<union> set [''b'', ''a'', ''b'']. re_match keyRegex key \<noteq> None) \<and>
      distinct [''a'', ''b''] \<and> set [''b'', ''a'', ''b''] \<subseteq> set [''a'', ''b'']"
    by (simp add: keyRegex_def re_match_def char_defs)
  have r1: "\<exists>e. validateConfig [''a'', ''b'', ''a''] [''b''] = Inl e"
    using d validation_fail_fast [of "[''a'', ''b'', ''a'']" "[''b'']"] by blast
  have r2: "\<exists>e. validateConfig [''a'', ''b''] [''b'', ''c'', ''d''] = Inl e"
    using m validation_fail_fast [of "[''a'', ''b'']" "[''b'', ''c'', ''d'']"] by blast
  have r3: "validateConfig [''a'', ''b''] [''b'', ''a'', ''b''] = Inr ()"
    using g validation_fail_fast [of "[''a'', ''b'']" "[''b'', ''a'', ''b'']"] by blast
  have v1: "validateConfig [''a'', ''b'', ''a''] [''b''] = Inl (DuplicateKey ''a'')"
    by (simp add: validate_defs char_defs)
  have v2: "validateConfig [''a'', ''b''] [''b'', ''c'', ''d''] = Inl (MissingKey ''c'')"
    by (simp add: validate_defs char_defs)
  show ?thesis using r1 r2 r3 v1 v2 by simp
qed

section \<open>The path transformer: transforming back\<close>

lemma map_the_map_of_zip:
  assumes "distinct ks" "length comps = length ks"
  shows "map (\<lambda>k. the (map_of (zip ks comps) k)) ks = comps"
proof (rule nth_equalityI)
  show "length (map (\<lambda>k. the (map_of (zip ks comps) k)) ks) = length comps"
    using assms(2) by simp
next
  fix i
  assume "i < length (map (\<lambda>k. the (map_of (zip ks comps) k)) ks)"
  then have i: "i < length comps" using assms(2) by simp
  have "map_of (zip ks comps) (ks ! i) = Some (comps ! i)"
    using assms i by (intro map_of_zip_nth) auto
  then show "map (\<lambda>k. the (map_of (zip ks comps) k)) ks ! i = comps ! i"
    using i assms(2) by simp
qed

lemma map_join: "map f (join sep xs) = join (map f sep) (map (map f) xs)"
  by (induction sep xs rule: join.induct) auto

lemma to_source_separators_component:
  "component c \<Longrightarrow> to_source_separators c = c"
  by (auto simp: component_def to_source_separators_def not_slash_def list_all_iff
      intro: map_idI)

lemma to_source_separators_join:
  assumes "list_all component cs"
  shows "to_source_separators (join [fslash] cs) = join [bslash] cs"
proof -
  have "map to_source_separators cs = cs"
    using assms by (auto simp: list_all_iff to_source_separators_component intro: map_idI)
  then show ?thesis
    using map_join [of "\<lambda>c. if c = fslash then bslash else c" "[fslash]" cs]
    by (simp add: to_source_separators_def [abs_def])
qed

lemma fslash_in_join:
  "2 \<le> length cs \<Longrightarrow> fslash \<in> set (join [fslash] cs)"
  by (induction "[fslash]" cs rule: join.induct) auto

lemma no_fslash_in_join:
  "list_all component cs \<Longrightarrow> fslash \<notin> set (join [bslash] cs)"
  by (induction "[bslash]" cs rule: join.induct)
    (auto simp: component_def list_all_iff not_slash_def bslash_def fslash_def)

text \<open>
  Claim C6, as amended. Let the output schema be a duplicate-free permutation of the input
  schema, both patterns compile, and the transform function for the pair report a match
  on a path with components \<open>comps\<close>. Then the rebuilt path is a permutation of
  \<open>comps\<close> joined by forward slashes; once its forward slashes are replaced by
  backslashes, the transform function for the swapped pair matches it and returns
  \<open>comps\<close>, in the original order, joined by forward slashes, so the multiset of
  components is reproduced. Applied to the rebuilt path as it is, the transform function
  for the swapped pair returns \<open>None\<close> as soon as the schema has two names.
\<close>

theorem round_trip_through_swapped_schema:
  assumes "getTransformPathFunction inputKeys outputKeys = Inr forward"
    and "getTransformPathFunction outputKeys inputKeys = Inr backward"
    and "mset outputKeys = mset inputKeys"
    and "distinct outputKeys"
    and "forward p \<noteq> None"
  shows "\<exists>comps comps'. length comps = length inputKeys \<and> list_all component comps \<and>
     (p = join [bslash] comps \<or> p = bslash # join [bslash] comps) \<and>
     forward p = Some (join [fslash] comps') \<and>
     mset comps' = mset comps \<and>
     backward (to_source_separators (join [fslash] comps')) = Some (join [fslash] comps) \<and>
     (2 \<le> length inputKeys \<longrightarrow> backward (join [fslash] comps') = None)"
proof -
  have f: "forward = transformFunction (inputPathRegex inputKeys) outputKeys"
    and dI: "distinct inputKeys"
    using assms(1) by (simp_all add: getTransformPathFunction_Inr)
  have b: "backward = transformFunction (inputPathRegex outputKeys) inputKeys"
    using assms(2) by (simp add: getTransformPathFunction_Inr)
  have sets: "set outputKeys = set inputKeys"
    using assms(3) by (rule mset_eq_setD)
  have len: "length outputKeys = length inputKeys"
    using assms(3) by (rule mset_eq_length)
  have neI: "inputKeys \<noteq> []"
    using assms(5) unfolding f by (auto simp: transformFunction_Nil)
  then have neO: "outputKeys \<noteq> []" using len by auto
  obtain r where "forward p = Some r" using assms(5) by auto
  then obtain comps where comps: "length comps = length inputKeys" "list_all component comps"
    "p = join [bslash] comps \<or> p = bslash # join [bslash] comps"
    and r: "forward p =
      Some (join [fslash] (List.map_filter (map_of (zip inputKeys comps)) outputKeys))"
    unfolding f transformFunction_Some [OF neI] by blast
  define g where "g = (\<lambda>key. the (map_of (zip inputKeys comps) key))"
  define comps' where "comps' = map g outputKeys"
  have mf: "List.map_filter (map_of (zip inputKeys comps)) outputKeys = comps'"
    unfolding comps'_def g_def using sets comps(1)
    by (intro map_filter_all_Some map_of_zip_defined) auto
  have gI: "map g inputKeys = comps"
    unfolding g_def using dI comps(1) by (rule map_the_map_of_zip)
  have ms: "mset comps' = mset comps"
  proof -
    have "mset comps' = image_mset g (mset outputKeys)" by (simp add: comps'_def)
    also have "\<dots> = image_mset g (mset inputKeys)" by (simp add: assms(3))
    also have "\<dots> = mset (map g inputKeys)" by simp
    finally show ?thesis by (simp add: gI)
  qed
  have len': "length comps' = length outputKeys"
    by (simp add: comps'_def)
  have all': "list_all component comps'"
    using comps(2) set_mset_mset ms by (metis list_all_iff mset_eq_setD)
  have back_parts: "List.map_filter (map_of (zip outputKeys comps')) inputKeys = comps"
  proof -
    have "List.map_filter (map_of (zip outputKeys comps')) inputKeys =
        map (\<lambda>key. the (map_of (zip outputKeys comps') key)) inputKeys"
      using sets len' by (intro map_filter_all_Some map_of_zip_defined) auto
    also have "\<dots> = map g inputKeys"
      using sets by (intro map_cong) (auto simp: comps'_def map_of_zip_map)
    finally show ?thesis by (simp add: gI)
  qed
  have "backward (join [bslash] comps') = Some (join [fslash] comps)"
    unfolding b transformFunction_Some [OF neO] using len' all' back_parts by metis
  then have conv: "backward (to_source_separators (join [fslash] comps')) =
      Some (join [fslash] comps)"
    by (simp add: to_source_separators_join [OF all'])
  have direct: "2 \<le> length inputKeys \<longrightarrow> backward (join [fslash] comps') = None"
  proof
    assume two: "2 \<le> length inputKeys"
    then have in_q: "fslash \<in> set (join [fslash] comps')"
      using len len' by (intro fslash_in_join) simp
    show "backward (join [fslash] comps') = None"
    proof (rule ccontr)
      assume "backward (join [fslash] comps') \<noteq> None"
      then obtain r' where "backward (join [fslash] comps') = Some r'" by auto
      then obtain cs where cs: "list_all component cs"
        "join [fslash] comps' = join [bslash] cs \<or> join [fslash] comps' = bslash # join [bslash] cs"
        unfolding b transformFunction_Some [OF neO] by blast
      have "fslash \<notin> set (join [bslash] cs)"
        using cs(1) by (rule no_fslash_in_join)
      moreover have "fslash \<noteq> bslash" by (simp add: bslash_def fslash_def)
      ultimately show False using cs(2) in_q by auto
    qed
  qed
  show ?thesis
    using comps r mf ms conv direct by blast
qed

text \<open>The theorem at the schemas \<open>[a, b]\<close> and \<open>[b, a]\<close> and the path \<open>x\y\<close>.\<close>

theorem round_trip_through_swapped_schema_witness:
  "transformFunction (inputPathRegex [''a'', ''b'']) [''b'', ''a'']
     [CHR ''x'', bslash, CHR ''y''] \<noteq> None \<and>
   mset [''b'', ''a''] = mset [''a'', ''b''] \<and> distinct [''b'', ''a''] \<and>
   (\<exists>comps comps'. length comps = length [''a'', ''b''] \<and> list_all component comps \<and>
     ([CHR ''x'', bslash, CHR ''y''] = join [bslash] comps \<or>
      [CHR ''x'', bslash, CHR ''y''] = bslash # join [bslash] comps) \<and>
     transformFunction (inputPathRegex [''a'', ''b'']) [''b'', ''a'']
       [CHR ''x'', bslash, CHR ''y''] = Some (join [fslash] comps') \<and>
     mset comps' = mset comps \<and>
     transformFunction (inputPathRegex [''b'', ''a'']) [''a'', ''b'']
       (to_source_separators (join [fslash] comps')) = Some (join [fslash] comps))"
proof -
  have c1: "getTransformPathFunction [''a'', ''b''] [''b'', ''a''] =
     Inr (transformFunction (inputPathRegex [''a'', ''b'']) [''b'', ''a''])"
    by (simp add: getTransformPathFunction_def re_compile_def inputPathRegex_def
        joinedCaptureGroups_def captureGroups_def char_defs)
  have c2: "getTransformPathFunction [''b'', ''a''] [''a'', ''b''] =
     Inr (transformFunction (inputPathRegex [''b'', ''a'']) [''a'', ''b''])"
    by (simp add: getTransformPathFunction_def re_compile_def inputPathRegex_def
        joinedCaptureGroups_def captureGroups_def char_defs)
  have p: "mset [''b'', ''a''] = mset [''a'', ''b'']"
    by (simp add: add_mset_commute)
  have d: "distinct [''b'', ''a'']"
    by simp
  have m: "transformFunction (inputPathRegex [''a'', ''b'']) [''b'', ''a'']
     [CHR ''x'', bslash, CHR ''y''] \<noteq> None"
    by (simp add: transform_defs char_defs)
  show ?thesis
    using p d m round_trip_through_swapped_schema [OF c1 c2 p d m] by blast
qed

text \<open>
  Claim C6 as it is written fails: the rebuilt path \<open>y/x\<close> is joined by forward
  slashes, which the pattern of the swapped pair does not accept, so the second
  transformation returns \<open>None\<close>.
\<close>

theorem round_trip_counterexample:
  "transform_path [''a'', ''b''] [''b'', ''a''] [CHR ''x'', bslash, CHR ''y''] = Inr (Some ''y/x'') \<and>
   transform_path [''b'', ''a''] [''a'', ''b''] ''y/x'' = Inr None"
  by (simp add: transform_defs char_defs)

section \<open>Properties of the orchestrator\<close>

text \<open>
  \<open>copyFile\<close> raises what its existence test of the parent raises, what creating the
  missing directories raises, and otherwise what the copy raises.
\<close>

lemma copyFile_exists_fails:
  "path_exists os fs (path_parent os destination) = Inl e \<Longrightarrow>
   copyFile os fs source destination = (Some e, fs)"
  by (simp add: copyFile_def)

lemma copyFile_mkdir_fails:
  "path_exists os fs (path_parent os destination) = Inr False \<Longrightarrow>
   mkdir_parents os fs (path_parent os destination) = (Some e, fs') \<Longrightarrow>
   copyFile os fs source destination = (Some e, fs')"
  by (simp add: copyFile_def)

lemma copyFile_copy2_fails:
  "path_exists os fs (path_parent os destination) = Inr True \<Longrightarrow>
   copy2 os fs source destination = (Some e, fs') \<Longrightarrow>
   copyFile os fs source destination = (Some e, fs')"
  by (simp add: copyFile_def)

text \<open>
  A run of the loop body that returns adds one to exactly one tally and prints one
  character; a loop that returns has done so once per file. Neither can fail to return
  unless an existence test raises.
\<close>

lemma process_file_Inr:
  assumes "process_file os transformPath sourceDir dstDir st file = Inr st'"
  shows "(tallies st' =
       (fileCopiedCount st + 1, fileIgnoredCount st, fileSkippedCount st, copyErrorCount st) \<or>
     tallies st' =
       (fileCopiedCount st, fileIgnoredCount st + 1, fileSkippedCount st, copyErrorCount st) \<or>
     tallies st' =
       (fileCopiedCount st, fileIgnoredCount st, fileSkippedCount st + 1, copyErrorCount st) \<or>
     tallies st' =
       (fileCopiedCount st, fileIgnoredCount st, fileSkippedCount st, copyErrorCount st + 1)) \<and>
    (\<exists>c. printed st' = printed st @ [c])"
proof (cases "transformPath (relative_to os file sourceDir)")
  case None
  then have "st' = ignore_file st file"
    using assms by (simp add: process_file_def)
  then show ?thesis by (simp add: ignore_file_def tallies_def)
next
  case (Some d)
  show ?thesis
  proof (cases "d = []")
    case True
    then have "st' = ignore_file st file"
      using assms Some by (simp add: process_file_def)
    then show ?thesis by (simp add: ignore_file_def tallies_def)
  next
    case False
    show ?thesis
    proof (cases "path_exists os (fsys st) (joinpath os dstDir d)")
      case (Inl e)
      then show ?thesis
        using assms Some False by (simp add: process_file_def Let_def)
    next
      case (Inr b)
      show ?thesis
      proof (cases b)
        case True
        then have "st' = st\<lparr>logged := logged st @ [LogSkip (joinpath os dstDir d)],
             printed := printed st @ ''-'',
             fileSkippedCount := fileSkippedCount st + 1\<rparr>"
          using assms Some False Inr by (simp add: process_file_def Let_def)
        then show ?thesis by (simp add: tallies_def)
      next
        case no: False
        obtain eo fs' where cp: "copyFile os (fsys st)
            (joinpath os sourceDir (relative_to os file sourceDir)) (joinpath os dstDir d) = (eo, fs')"
          by (cases "copyFile os (fsys st)
            (joinpath os sourceDir (relative_to os file sourceDir)) (joinpath os dstDir d)")
        show ?thesis
        proof (cases eo)
          case None
          then have "st' = st\<lparr>logged := logged st @
                [LogCopy (joinpath os sourceDir (relative_to os file sourceDir))
                   (joinpath os dstDir d)],
              printed := printed st @ ''+'',
              fileCopiedCount := fileCopiedCount st + 1,
              fsys := fs'\<rparr>"
            using assms Some False Inr no cp by (simp add: process_file_def Let_def)
          then show ?thesis by (simp add: tallies_def)
        next
          case (Some e)
          then have "st' = st\<lparr>logged := logged st @
                [LogCopy (joinpath os sourceDir (relative_to os file sourceDir))
                   (joinpath os dstDir d),
                 LogError (joinpath os sourceDir (relative_to os file sourceDir)) e],
              printed := printed st @ ''E'',
              copyErrorCount := copyErrorCount st + 1,
              fsys := fs'\<rparr>"
            using assms \<open>transformPath (relative_to os file sourceDir) = Some d\<close> False Inr no cp
            by (simp add: process_file_def Let_def)
          then show ?thesis by (simp add: tallies_def)
        qed
      qed
    qed
  qed
qed

lemma process_file_tally_sum:
  "process_file os transformPath sourceDir dstDir st file = Inr st' \<Longrightarrow>
   tally_sum st' = Suc (tally_sum st) \<and> copyErrorCount st \<le> copyErrorCount st'"
  using process_file_Inr [of os transformPath sourceDir dstDir st "file" st']
  by (auto simp: tally_sum_def tallies_def)

lemma main_loop_Inr:
  "main_loop os transformPath sourceDir dstDir st files = Inr st' \<Longrightarrow>
   tally_sum st' = tally_sum st + length files \<and>
   copyErrorCount st \<le> copyErrorCount st' \<and>
   (\<exists>rest. printed st' = printed st @ rest \<and> length rest = length files)"
proof (induction files arbitrary: st)
  case Nil
  then show ?case by simp
next
  case (Cons f files)
  then obtain st1 where s1: "process_file os transformPath sourceDir dstDir st f = Inr st1"
    and s2: "main_loop os transformPath sourceDir dstDir st1 files = Inr st'"
    by (auto split: sum.splits)
  from Cons.IH [OF s2] obtain rest where ih: "tally_sum st' = tally_sum st1 + length files"
    "copyErrorCount st1 \<le> copyErrorCount st'"
    "printed st' = printed st1 @ rest" "length rest = length files"
    by blast
  obtain c where c: "printed st1 = printed st @ [c]"
    using process_file_Inr [OF s1] by blast
  have "printed st' = printed st @ (c # rest)" "length (c # rest) = length (f # files)"
    using ih(3,4) c by simp_all
  then have "\<exists>rest. printed st' = printed st @ rest \<and> length rest = length (f # files)"
    by blast
  then show ?case
    using ih(1,2) process_file_tally_sum [OF s1] by simp
qed

lemma process_file_total:
  assumes "\<And>fs p. \<exists>b. path_exists os fs p = Inr b"
  shows "\<exists>st'. process_file os transformPath sourceDir dstDir st file = Inr st'"
proof (cases "transformPath (relative_to os file sourceDir)")
  case None
  then show ?thesis by (simp add: process_file_def)
next
  case (Some d)
  obtain b where b: "path_exists os (fsys st) (joinpath os dstDir d) = Inr b"
    using assms by blast
  obtain eo fs' where cp: "copyFile os (fsys st)
      (joinpath os sourceDir (relative_to os file sourceDir)) (joinpath os dstDir d) = (eo, fs')"
    by (cases "copyFile os (fsys st)
      (joinpath os sourceDir (relative_to os file sourceDir)) (joinpath os dstDir d)")
  show ?thesis
    using Some b cp by (cases eo) (simp_all add: process_file_def Let_def)
qed

lemma main_loop_total:
  assumes "\<And>fs p. \<exists>b. path_exists os fs p = Inr b"
  shows "\<exists>st'. main_loop os transformPath sourceDir dstDir st files = Inr st'"
proof (induction files arbitrary: st)
  case Nil
  then show ?case by simp
next
  case (Cons f files)
  obtain st1 where "process_file os transformPath sourceDir dstDir st f = Inr st1"
    using process_file_total [OF assms] by blast
  then show ?case using Cons.IH [of st1] by simp
qed

lemma exists_error_ends_loop:
  assumes "transformPath (relative_to os file sourceDir) = Some d"
    and "d \<noteq> []"
    and "path_exists os (fsys st) (joinpath os dstDir d) = Inl e"
  shows "process_file os transformPath sourceDir dstDir st file = Inl e"
    and "main_loop os transformPath sourceDir dstDir st (file # files) = Inl e"
  using assms by (simp_all add: process_file_def Let_def)

lemma demo_exists_total:
  "\<forall>fs p. \<exists>b. path_exists (demo_os unwritable []) fs p = Inr b"
  by (simp add: demo_os_def)

section \<open>The orchestrator: one tally per file\<close>

text \<open>
  Claim C7. When the transform function returns a non-empty path for a file and the
  destination path already exists, the loop body records the skip in the log, prints
  \<open>-\<close>, adds one to the skipped tally and to no other, and leaves the file system as it
  was: nothing is copied and the content of the destination is unchanged.
\<close>

theorem existing_destination_is_skipped:
  assumes "transformPath (relative_to os file sourceDir) = Some d"
    and "d \<noteq> []"
    and "path_exists os (fsys st) (joinpath os dstDir d) = Inr True"
  shows "\<exists>st'. process_file os transformPath sourceDir dstDir st file = Inr st' \<and>
     st' = st\<lparr>logged := logged st @ [LogSkip (joinpath os dstDir d)],
             printed := printed st @ ''-'',
             fileSkippedCount := fileSkippedCount st + 1\<rparr> \<and>
     tallies st' =
       (fileCopiedCount st, fileIgnoredCount st, fileSkippedCount st + 1, copyErrorCount st) \<and>
     fsys st' = fsys st"
  using assms by (simp add: process_file_def tallies_def Let_def)

text \<open>
  The theorem on a file system where \<open>/d/y/x\<close> exists with the content \<open>old\<close>: the
  file is skipped and the content stays.
\<close>

theorem existing_destination_is_skipped_witness:
  "transformFunction (inputPathRegex [''a'', ''b'']) [''b'', ''a'']
     (relative_to (demo_os [] []) (''/s/'' @ [CHR ''x'', bslash, CHR ''y'']) ''/s'') = Some ''y/x'' \<and>
   path_exists (demo_os [] [])
     [(''/s/'' @ [CHR ''x'', bslash, CHR ''y''], ''new''), (''/d/y/x'', ''old'')]
     (joinpath (demo_os [] []) ''/d'' ''y/x'') = Inr True \<and>
   (\<exists>st'. process_file (demo_os [] [])
       (transformFunction (inputPathRegex [''a'', ''b'']) [''b'', ''a'']) ''/s'' ''/d''
       (init_state [(''/s/'' @ [CHR ''x'', bslash, CHR ''y''], ''new''), (''/d/y/x'', ''old'')])
       (''/s/'' @ [CHR ''x'', bslash, CHR ''y'']) = Inr st' \<and>
     tallies st' = (0, 0, 1, 0) \<and>
     map_of (fsys st') ''/d/y/x'' = Some ''old'')"
proof -
  let ?os = "demo_os [] []"
  let ?tf = "transformFunction (inputPathRegex [''a'', ''b'']) [''b'', ''a'']"
  let ?file = "''/s/'' @ [CHR ''x'', bslash, CHR ''y'']"
  let ?fs = "[(?file, ''new''), (''/d/y/x'', ''old'')]"
  have t: "?tf (relative_to ?os ?file ''/s'') = Some ''y/x''"
    by (simp add: demo_os_def transform_defs char_defs)
  have n: "''y/x'' \<noteq> []" by simp
  have e: "path_exists ?os (fsys (init_state ?fs)) (joinpath ?os ''/d'' ''y/x'') = Inr True"
    by (simp add: demo_os_def init_state_def char_defs)
  have e': "path_exists ?os ?fs (joinpath ?os ''/d'' ''y/x'') = Inr True"
    by (simp add: demo_os_def char_defs)
  have i: "tallies (init_state ?fs) = (0, 0, 0, 0)" "fsys (init_state ?fs) = ?fs"
    by (simp_all add: init_state_def tallies_def)
  have m: "map_of ?fs ''/d/y/x'' = Some ''old''"
    by (simp add: char_defs)
  obtain st' where s: "process_file ?os ?tf ''/s'' ''/d'' (init_state ?fs) ?file = Inr st'"
    "tallies st' = (fileCopiedCount (init_state ?fs), fileIgnoredCount (init_state ?fs),
       fileSkippedCount (init_state ?fs) + 1, copyErrorCount (init_state ?fs))"
    "fsys st' = fsys (init_state ?fs)"
    using existing_destination_is_skipped
      [of ?tf ?os ?file "''/s''" "''y/x''" "init_state ?fs" "''/d''", OF t n e]
    by blast
  have "tallies st' = (0, 0, 1, 0)"
    using s(2) i(1) by (simp add: tallies_def)
  moreover have "map_of (fsys st') ''/d/y/x'' = Some ''old''"
    unfolding s(3) i(2) by (rule m)
  ultimately show ?thesis
    using t e' s(1) by blast
qed




text \<open>
  Claim C9, as amended. Let the output schema be empty and the relative path of a file
  have, after one optional leading backslash, exactly \<open>len(inputKeys)\<close> components. If
  the input schema is not empty the transform function returns the empty path; if it is
  empty too, the transform function returns \<open>None\<close>. In both cases the loop body takes
  the branch of a file that does not match: it adds one to the ignored tally and to no
  other, and copies nothing.
\<close>

theorem empty_output_schema_is_ignored:
  assumes "getTransformPathFunction inputKeys [] = Inr transformPath"
    and "length comps = length inputKeys"
    and "list_all component comps"
    and "relative_to os file sourceDir = join [bslash] comps \<or>
         relative_to os file sourceDir = bslash # join [bslash] comps"
  shows "transformPath (relative_to os file sourceDir) =
       (if inputKeys = [] then None else Some []) \<and>
     process_file os transformPath sourceDir dstDir st file = Inr (ignore_file st file) \<and>
     tallies (ignore_file st file) =
       (fileCopiedCount st, fileIgnoredCount st + 1, fileSkippedCount st, copyErrorCount st) \<and>
     fsys (ignore_file st file) = fsys st"
proof -
  have f: "transformPath = transformFunction (inputPathRegex inputKeys) []"
    using assms(1) by (simp add: getTransformPathFunction_Inr)
  have t: "transformPath (relative_to os file sourceDir) =
       (if inputKeys = [] then None else Some [])"
  proof (cases "inputKeys = []")
    case True
    then show ?thesis by (simp add: f transformFunction_Nil)
  next
    case False
    have "List.map_filter (map_of (zip inputKeys comps)) [] = []"
      by (simp add: List.map_filter_def)
    then have "transformFunction (inputPathRegex inputKeys) [] (relative_to os file sourceDir) =
        Some (join [fslash] [])"
      unfolding transformFunction_Some [OF False] using assms(2,3,4) by metis
    then show ?thesis using False by (simp add: f)
  qed
  then have p: "process_file os transformPath sourceDir dstDir st file = Inr (ignore_file st file)"
    by (simp add: process_file_def)
  show ?thesis
    using t p by (simp add: ignore_file_def tallies_def)
qed

text \<open>The theorem at the input schema \<open>[a, b]\<close> and the file \<open>/s/x\y\<close>.\<close>

theorem empty_output_schema_is_ignored_witness:
  "getTransformPathFunction [''a'', ''b''] [] =
     Inr (transformFunction (inputPathRegex [''a'', ''b'']) []) \<and>
   relative_to (demo_os [] []) (''/s/'' @ [CHR ''x'', bslash, CHR ''y'']) ''/s'' =
     join [bslash] [''x'', ''y''] \<and>
   list_all component [''x'', ''y''] \<and>
   transformFunction (inputPathRegex [''a'', ''b'']) []
     (relative_to (demo_os [] []) (''/s/'' @ [CHR ''x'', bslash, CHR ''y'']) ''/s'') = Some [] \<and>
   (\<exists>st'. process_file (demo_os [] []) (transformFunction (inputPathRegex [''a'', ''b'']) [])
       ''/s'' ''/d'' (init_state [(''/s/'' @ [CHR ''x'', bslash, CHR ''y''], ''new'')])
       (''/s/'' @ [CHR ''x'', bslash, CHR ''y'']) = Inr st' \<and>
     tallies st' = (0, 1, 0, 0))"
proof -
  let ?os = "demo_os [] []"
  let ?file = "''/s/'' @ [CHR ''x'', bslash, CHR ''y'']"
  let ?st = "init_state [(?file, ''new'')]"
  have c: "getTransformPathFunction [''a'', ''b''] [] =
     Inr (transformFunction (inputPathRegex [''a'', ''b'']) [])"
    by (simp add: getTransformPathFunction_def re_compile_def inputPathRegex_def
        joinedCaptureGroups_def captureGroups_def char_defs)
  have l: "length [''x'', ''y''] = length [''a'', ''b'']" by simp
  have a: "list_all component [''x'', ''y'']"
    by (simp add: component_def char_defs)
  have r: "relative_to ?os ?file ''/s'' = join [bslash] [''x'', ''y'']"
    by (simp add: demo_os_def)
  then have r': "relative_to ?os ?file ''/s'' = join [bslash] [''x'', ''y''] \<or>
      relative_to ?os ?file ''/s'' = bslash # join [bslash] [''x'', ''y'']"
    by (rule disjI1)
  have i: "tallies ?st = (0, 0, 0, 0)"
    by (simp add: init_state_def tallies_def)
  note th = empty_output_schema_is_ignored
      [of "[''a'', ''b'']" "transformFunction (inputPathRegex [''a'', ''b'']) []"
        "[''x'', ''y'']" ?os ?file "''/s''" "''/d''" ?st, OF c l a r']
  have t1: "transformFunction (inputPathRegex [''a'', ''b'']) []
      (relative_to ?os ?file ''/s'') = Some []"
    using th [THEN conjunct1] by simp
  have t2: "process_file ?os (transformFunction (inputPathRegex [''a'', ''b'']) [])
      ''/s'' ''/d'' ?st ?file = Inr (ignore_file ?st ?file)"
    by (rule th [THEN conjunct2, THEN conjunct1])
  have t3: "tallies (ignore_file ?st ?file) = (0, 1, 0, 0)"
    using th [THEN conjunct2, THEN conjunct2, THEN conjunct1] i by (simp add: tallies_def)
  show ?thesis
    using c r a t1 t2 t3 by blast
qed

text \<open>
  Claim C9 as it is written fails when the input schema is empty as well: the path made
  of one backslash matches the pattern, with zero components, and the transform function
  returns \<open>None\<close>, not the empty path.
\<close>

theorem empty_schemas_counterexample:
  "re_match (inputPathRegex []) [bslash] = Some [] \<and>
   [bslash] = bslash # join [bslash] [] \<and>
   transform_path [] [] [bslash] = Inr None"
  by (simp add: transform_defs char_defs)

text \<open>
  Claim C10. After the loop has run over any list of files from the initial state, the
  four tallies add up to the number of files; each run of the loop body adds one to
  exactly one tally and leaves the other three as they were; and when \<open>main\<close> returns,
  the tallies of its final state add up to the number of files it listed. The loop
  returns for every list of files unless an existence test raises.
\<close>

theorem tallies_partition_files:
  "(\<forall>st'. main_loop os transformPath sourceDir dstDir (init_state fs) files = Inr st' \<longrightarrow>
      tally_sum st' = length files) \<and>
   (\<forall>st'. process_file os transformPath sourceDir dstDir st file = Inr st' \<longrightarrow>
      tallies st' =
        (fileCopiedCount st + 1, fileIgnoredCount st, fileSkippedCount st, copyErrorCount st) \<or>
      tallies st' =
        (fileCopiedCount st, fileIgnoredCount st + 1, fileSkippedCount st, copyErrorCount st) \<or>
      tallies st' =
        (fileCopiedCount st, fileIgnoredCount st, fileSkippedCount st + 1, copyErrorCount st) \<or>
      tallies st' =
        (fileCopiedCount st, fileIgnoredCount st, fileSkippedCount st, copyErrorCount st + 1)) \<and>
   (\<forall>st' total. main os inputKeys outputKeys sourceDir dstDir fs = Inr (st', total) \<longrightarrow>
      total = length (getAllFilesInDirectory os fs sourceDir) \<and> tally_sum st' = total) \<and>
   ((\<forall>fs p. \<exists>b. path_exists os fs p = Inr b) \<longrightarrow>
      (\<exists>st'. main_loop os transformPath sourceDir dstDir (init_state fs) files = Inr st'))"
proof (intro conjI allI impI)
  fix st'
  assume "main_loop os transformPath sourceDir dstDir (init_state fs) files = Inr st'"
  from main_loop_Inr [OF this]
  have "tally_sum st' = tally_sum (init_state fs) + length files" by blast
  then show "tally_sum st' = length files"
    by (simp add: tally_sum_def init_state_def)
next
  fix st'
  assume "process_file os transformPath sourceDir dstDir st file = Inr st'"
  from process_file_Inr [OF this]
  show "tallies st' =
        (fileCopiedCount st + 1, fileIgnoredCount st, fileSkippedCount st, copyErrorCount st) \<or>
      tallies st' =
        (fileCopiedCount st, fileIgnoredCount st + 1, fileSkippedCount st, copyErrorCount st) \<or>
      tallies st' =
        (fileCopiedCount st, fileIgnoredCount st, fileSkippedCount st + 1, copyErrorCount st) \<or>
      tallies st' =
        (fileCopiedCount st, fileIgnoredCount st, fileSkippedCount st, copyErrorCount st + 1)"
    by blast
next
  fix st' total
  assume m: "main os inputKeys outputKeys sourceDir dstDir fs = Inr (st', total)"
  then obtain tp where tp: "getTransformPathFunction inputKeys outputKeys = Inr tp"
    by (cases "getTransformPathFunction inputKeys outputKeys") (auto simp: main_def)
  then have l: "main_loop os tp sourceDir dstDir (init_state fs)
      (getAllFilesInDirectory os fs sourceDir) = Inr st'"
    and t: "total = length (getAllFilesInDirectory os fs sourceDir)"
    using m by (auto simp: main_def Let_def split: sum.splits)
  show "total = length (getAllFilesInDirectory os fs sourceDir)" by (rule t)
  from main_loop_Inr [OF l]
  have "tally_sum st' = tally_sum (init_state fs) + length (getAllFilesInDirectory os fs sourceDir)"
    by blast
  then show "tally_sum st' = total"
    using t by (simp add: tally_sum_def init_state_def)
next
  assume "\<forall>fs p. \<exists>b. path_exists os fs p = Inr b"
  then show "\<exists>st'. main_loop os transformPath sourceDir dstDir (init_state fs) files = Inr st'"
    using main_loop_total [of os transformPath sourceDir dstDir "init_state fs" files] by blast
qed

text \<open>The theorem on a run over two files: one is copied, one does not match.\<close>

theorem tallies_partition_files_witness:
  "\<exists>st'. main (demo_os [] []) [''a'', ''b''] [''b'', ''a''] ''/s'' ''/d''
       [(''/s/'' @ [CHR ''x'', bslash, CHR ''y''], ''c1''), (''/s/q'', ''c2'')] = Inr (st', 2) \<and>
     tally_sum st' = 2"
proof -
  let ?os = "demo_os [] []"
  let ?tf = "transformFunction (inputPathRegex [''a'', ''b'']) [''b'', ''a'']"
  let ?fs = "[(''/s/'' @ [CHR ''x'', bslash, CHR ''y''], ''c1''), (''/s/q'', ''c2'')]"
  let ?files = "[''/s/'' @ [CHR ''x'', bslash, CHR ''y''], ''/s/q'']"
  have c: "getTransformPathFunction [''a'', ''b''] [''b'', ''a''] = Inr ?tf"
    by (simp add: getTransformPathFunction_def re_compile_def inputPathRegex_def
        joinedCaptureGroups_def captureGroups_def char_defs)
  have l: "getAllFilesInDirectory ?os ?fs ''/s'' = ?files"
    by (simp add: getAllFilesInDirectory_def demo_os_def char_defs)
  note th = tallies_partition_files
      [of ?os ?tf "''/s''" "''/d''" ?fs ?files _ _ "[''a'', ''b'']" "[''b'', ''a'']"]
  have tot: "\<forall>fs p. \<exists>b. path_exists ?os fs p = Inr b"
    by (rule demo_exists_total)
  obtain st' where s: "main_loop ?os ?tf ''/s'' ''/d'' (init_state ?fs) ?files = Inr st'"
    using th [THEN conjunct2, THEN conjunct2, THEN conjunct2] tot by blast
  have m: "main ?os [''a'', ''b''] [''b'', ''a''] ''/s'' ''/d'' ?fs = Inr (st', 2)"
    unfolding main_def c l using s by (simp del: main_loop.simps)
  have "tally_sum st' = 2"
    using th [THEN conjunct2, THEN conjunct2, THEN conjunct1] m by blast
  then show ?thesis using m by blast
qed

end
